theory Spec2Isabelle
  imports Complex_Main "HOL-Library.AList"
begin

section \<open>The rate limiter of \<^verbatim>\<open>gamdl_telegram/rate_limiter.py\<close>\<close>

text \<open>
  The module keeps, for every scope key, a dictionary from the clock reading of a request
  to the number of requests seen at that reading.  The clock is \<^verbatim>\<open>time.time()\<close>, a number
  of seconds with a fractional part.  The reading is an input of every operation here, and a
  rational; the difference of two readings is exact.  A bucket dictionary \<^verbatim>\<open>Dict[float, int]\<close>
  is iterated by the code (\<^verbatim>\<open>items()\<close>, \<^verbatim>\<open>values()\<close>), so it is an association list in
  insertion order.  The outer dictionaries \<^verbatim>\<open>user_requests\<close> and \<^verbatim>\<open>ip_requests\<close> are only
  indexed and tested for membership, so they are maps.  The locks serialise the calls; the model
  is the sequential behaviour of one call after the other.  \<^verbatim>\<open>logger.warning\<close> writes to the
  module logger and touches neither the limiter nor a return value; the model keeps the warning
  of the decorator, whose text names the decorated function, and leaves the three warnings of
  \<^verbatim>\<open>is_allowed\<close> out.
\<close>

type_synonym time = rat

type_synonym buckets = "(time \<times> int) list"

datatype error = KeyError | RuntimeError string | AttributeError

subsection \<open>Dictionary operations used by the module\<close>

text \<open>\<^verbatim>\<open>sum(d.values())\<close>\<close>

definition sum_values :: "buckets \<Rightarrow> int" where
  "sum_values d = sum_list (map snd d)"

text \<open>\<^verbatim>\<open>d.get(key, default)\<close>\<close>

definition dict_get :: "buckets \<Rightarrow> time \<Rightarrow> int \<Rightarrow> int" where
  "dict_get d k dflt = (case map_of d k of None \<Rightarrow> dflt | Some v \<Rightarrow> v)"

text \<open>\<^verbatim>\<open>d[key] = value\<close>: an existing key keeps its place, a new key goes to the end.\<close>

definition dict_setitem :: "buckets \<Rightarrow> time \<Rightarrow> int \<Rightarrow> buckets" where
  "dict_setitem d k v = AList.update k v d"

text \<open>\<^verbatim>\<open>d.copy()\<close>: a new dictionary with the same entries.\<close>

definition dict_copy :: "buckets \<Rightarrow> buckets" where
  "dict_copy d = d"

text \<open>\<^verbatim>\<open>d[key]\<close> on an outer dictionary raises \<^verbatim>\<open>KeyError\<close> for a missing key.\<close>

definition dict_getitem :: "('k \<rightharpoonup> 'v) \<Rightarrow> 'k \<Rightarrow> error + 'v" where
  "dict_getitem d k = (case d k of None \<Rightarrow> Inl KeyError | Some v \<Rightarrow> Inr v)"

subsection \<open>The limiter object\<close>

record RateLimiter =
  global_limit :: int
  global_window :: int
  user_limit :: int
  user_window :: int
  ip_limit :: int
  ip_window :: int
  global_requests :: buckets
  user_requests :: "int \<rightharpoonup> buckets"
  ip_requests :: "string \<rightharpoonup> buckets"

text \<open>\<^verbatim>\<open>RateLimiter.__init__\<close>: the six settings are stored, the three dictionaries are empty.\<close>

definition RateLimiter_init :: "int \<Rightarrow> int \<Rightarrow> int \<Rightarrow> int \<Rightarrow> int \<Rightarrow> int \<Rightarrow> RateLimiter" where
  "RateLimiter_init gl gw ul uw il iw =
     \<lparr>global_limit = gl, global_window = gw, user_limit = ul, user_window = uw,
      ip_limit = il, ip_window = iw,
      global_requests = [], user_requests = Map.empty, ip_requests = Map.empty\<rparr>"

text \<open>
  \<^verbatim>\<open>_cleanup_expired_requests\<close>: a new dictionary with the entries whose age is at most the
  window; the argument is not changed.
\<close>

definition cleanup_expired_requests :: "buckets \<Rightarrow> int \<Rightarrow> time \<Rightarrow> buckets" where
  "cleanup_expired_requests request_dict window current_time =
     filter (\<lambda>(timestamp, count). current_time - timestamp \<le> of_int window) request_dict"

subsection \<open>\<^verbatim>\<open>is_allowed\<close>\<close>

text \<open>
  The three \<^verbatim>\<open>with\<close> blocks of \<^verbatim>\<open>is_allowed\<close>, in the order of the source.  Each one yields
  the limiter as it leaves the block and a flag: \<open>False\<close> when the block ran
  \<^verbatim>\<open>return False\<close>, \<open>True\<close> when control goes on to the next block.
\<close>

definition global_block :: "RateLimiter \<Rightarrow> time \<Rightarrow> bool \<times> RateLimiter" where
  "global_block self current_time =
     (let self = self\<lparr>global_requests :=
                   cleanup_expired_requests (global_requests self) (global_window self) current_time\<rparr>
      in if sum_values (global_requests self) \<ge> global_limit self then (False, self)
         else (True, self\<lparr>global_requests :=
                 dict_setitem (global_requests self) current_time
                   (dict_get (global_requests self) current_time 0 + 1)\<rparr>))"

definition user_block :: "RateLimiter \<Rightarrow> time \<Rightarrow> int option \<Rightarrow> error + (bool \<times> RateLimiter)" where
  "user_block self current_time user_id =
     (case user_id of
        None \<Rightarrow> Inr (True, self)
      | Some uid \<Rightarrow>
          let self = (if user_requests self uid = None
                      then self\<lparr>user_requests := (user_requests self)(uid \<mapsto> [])\<rparr> else self)
          in case dict_getitem (user_requests self) uid of
               Inl e \<Rightarrow> Inl e
             | Inr user_reqs \<Rightarrow>
                 let user_reqs = cleanup_expired_requests user_reqs (user_window self) current_time
                 in if sum_values user_reqs \<ge> user_limit self then Inr (False, self)
                    else let user_reqs = dict_setitem user_reqs current_time
                                           (dict_get user_reqs current_time 0 + 1)
                         in Inr (True, self\<lparr>user_requests := (user_requests self)(uid \<mapsto> user_reqs)\<rparr>))"

definition ip_block :: "RateLimiter \<Rightarrow> time \<Rightarrow> string option \<Rightarrow> error + (bool \<times> RateLimiter)" where
  "ip_block self current_time ip_address =
     (case ip_address of
        None \<Rightarrow> Inr (True, self)
      | Some ip \<Rightarrow>
          let self = (if ip_requests self ip = None
                      then self\<lparr>ip_requests := (ip_requests self)(ip \<mapsto> [])\<rparr> else self)
          in case dict_getitem (ip_requests self) ip of
               Inl e \<Rightarrow> Inl e
             | Inr ip_reqs \<Rightarrow>
                 let ip_reqs = cleanup_expired_requests ip_reqs (ip_window self) current_time
                 in if sum_values ip_reqs \<ge> ip_limit self then Inr (False, self)
                    else let ip_reqs = dict_setitem ip_reqs current_time
                                         (dict_get ip_reqs current_time 0 + 1)
                         in Inr (True, self\<lparr>ip_requests := (ip_requests self)(ip \<mapsto> ip_reqs)\<rparr>))"

text \<open>
  \<^verbatim>\<open>is_allowed(user_id, ip_address)\<close> at clock reading \<open>current_time\<close>: the answer and the
  limiter after the call, or the exception that left the call.
\<close>

definition is_allowed ::
  "RateLimiter \<Rightarrow> time \<Rightarrow> int option \<Rightarrow> string option \<Rightarrow> error + (bool \<times> RateLimiter)" where
  "is_allowed self current_time user_id ip_address =
     (case global_block self current_time of
        (False, self) \<Rightarrow> Inr (False, self)
      | (True, self) \<Rightarrow>
          (case user_block self current_time user_id of
             Inl e \<Rightarrow> Inl e
           | Inr (False, self) \<Rightarrow> Inr (False, self)
           | Inr (True, self) \<Rightarrow>
               (case ip_block self current_time ip_address of
                  Inl e \<Rightarrow> Inl e
                | Inr (False, self) \<Rightarrow> Inr (False, self)
                | Inr (True, self) \<Rightarrow> Inr (True, self))))"

subsection \<open>\<^verbatim>\<open>get_wait_time\<close>\<close>

text \<open>
  The three sections of \<^verbatim>\<open>get_wait_time\<close>, each taking \<^verbatim>\<open>max_wait\<close> as it stands and
  giving its next value.
\<close>

definition global_wait :: "RateLimiter \<Rightarrow> time \<Rightarrow> int \<Rightarrow> int" where
  "global_wait self current_time max_wait =
     (let global_reqs = cleanup_expired_requests (dict_copy (global_requests self))
                          (global_window self) current_time
      in if sum_values global_reqs \<ge> global_limit self
         then max max_wait (global_window self) else max_wait)"

definition user_wait :: "RateLimiter \<Rightarrow> time \<Rightarrow> int option \<Rightarrow> int \<Rightarrow> error + int" where
  "user_wait self current_time user_id max_wait =
     (case user_id of
        None \<Rightarrow> Inr max_wait
      | Some uid \<Rightarrow>
          if user_requests self uid \<noteq> None then
            (case dict_getitem (user_requests self) uid of
               Inl e \<Rightarrow> Inl e
             | Inr stored \<Rightarrow>
                 let user_reqs = cleanup_expired_requests (dict_copy stored) (user_window self)
                                   current_time
                 in if sum_values user_reqs \<ge> user_limit self
                    then Inr (max max_wait (user_window self)) else Inr max_wait)
          else Inr max_wait)"

definition ip_wait :: "RateLimiter \<Rightarrow> time \<Rightarrow> string option \<Rightarrow> int \<Rightarrow> error + int" where
  "ip_wait self current_time ip_address max_wait =
     (case ip_address of
        None \<Rightarrow> Inr max_wait
      | Some ip \<Rightarrow>
          if ip_requests self ip \<noteq> None then
            (case dict_getitem (ip_requests self) ip of
               Inl e \<Rightarrow> Inl e
             | Inr stored \<Rightarrow>
                 let ip_reqs = cleanup_expired_requests (dict_copy stored) (ip_window self)
                                 current_time
                 in if sum_values ip_reqs \<ge> ip_limit self
                    then Inr (max max_wait (ip_window self)) else Inr max_wait)
          else Inr max_wait)"

text \<open>
  \<^verbatim>\<open>get_wait_time(user_id, ip_address)\<close> at clock reading \<open>current_time\<close>.  The result is
  \<^verbatim>\<open>max_wait\<close>, an integer: it starts as \<^verbatim>\<open>0\<close> and is only ever replaced by its maximum
  with a window.  The limiter after the call is returned beside it, as for \<open>is_allowed\<close>.
\<close>

definition get_wait_time ::
  "RateLimiter \<Rightarrow> time \<Rightarrow> int option \<Rightarrow> string option \<Rightarrow> error + (int \<times> RateLimiter)" where
  "get_wait_time self current_time user_id ip_address =
     (let max_wait = 0;
          max_wait = global_wait self current_time max_wait
      in case user_wait self current_time user_id max_wait of
           Inl e \<Rightarrow> Inl e
         | Inr max_wait \<Rightarrow>
             (case ip_wait self current_time ip_address max_wait of
                Inl e \<Rightarrow> Inl e
              | Inr max_wait \<Rightarrow> Inr (max_wait, self)))"

subsection \<open>\<^verbatim>\<open>rate_limit\<close>, the decorator\<close>

text \<open>
  What \<^verbatim>\<open>rate_limit\<close> decorates is any callable.  A function made by \<^verbatim>\<open>def\<close> has a name
  (\<^verbatim>\<open>func.__name__\<close>); a \<^verbatim>\<open>functools.partial\<close> object or an instance with \<^verbatim>\<open>__call__\<close> has
  no such attribute, and reading it raises \<^verbatim>\<open>AttributeError\<close>.  \<^verbatim>\<open>functools.wraps\<close> skips an
  attribute that is missing, so decorating succeeds either way.  The body takes the arguments
  and acts on whatever it acts on, here a state of type \<open>'w\<close>; what it gives back, a value or an
  exception of its own, is a value of type \<open>'r\<close>.
\<close>

record ('a, 'w, 'r) callable =
  func_name :: "string option"
  func_call :: "'a \<Rightarrow> 'w \<Rightarrow> 'r \<times> 'w"

text \<open>
  One call of \<^verbatim>\<open>wrapper\<close> gives: what the call returned, or the exception the wrapper raised;
  the state the body acts on; the closure variable \<^verbatim>\<open>requests\<close>; the warnings logged.
\<close>

record ('w, 'r) outcome =
  returned :: "error + 'r"
  world :: 'w
  requests :: buckets
  warnings :: "string list"

text \<open>
  \<^verbatim>\<open>wrapper(*args, **kwargs)\<close> of \<^verbatim>\<open>rate_limit(limit, window)(func)\<close> at clock reading
  \<open>current_time\<close>, with the closure variable \<^verbatim>\<open>requests\<close> as the call finds it.  At the
  limit the source first builds the text of the warning from \<^verbatim>\<open>func.__name__\<close>, then logs it,
  then raises \<^verbatim>\<open>RuntimeError\<close>; when the callable has no name the exception of that read
  leaves the call before anything is logged.
\<close>

definition wrapper ::
  "int \<Rightarrow> int \<Rightarrow> ('a, 'w, 'r) callable \<Rightarrow> buckets \<Rightarrow> time \<Rightarrow> 'a \<Rightarrow> 'w \<Rightarrow> ('w, 'r) outcome" where
  "wrapper limit window func reqs current_time args w =
     (let reqs = filter (\<lambda>(timestamp, count). current_time - timestamp \<le> of_int window) reqs
      in if sum_values reqs \<ge> limit
         then (case func_name func of
                 None \<Rightarrow>
                   \<lparr>returned = Inl AttributeError, world = w, requests = reqs, warnings = []\<rparr>
               | Some name \<Rightarrow>
                   \<lparr>returned = Inl (RuntimeError ''Rate limit exceeded''), world = w, requests = reqs,
                    warnings = [''Function rate limit exceeded: '' @ name]\<rparr>)
         else let reqs = dict_setitem reqs current_time (dict_get reqs current_time 0 + 1)
              in case func_call func args w of
                   (result, w) \<Rightarrow> \<lparr>returned = Inr result, world = w, requests = reqs, warnings = []\<rparr>)"

text \<open>
  \<^verbatim>\<open>decorator(func)\<close> starts the closure with \<^verbatim>\<open>requests = {}\<close>.  A caller that makes one
  call after the other, catching the exception of a refused call, sees the list of what the calls
  returned; \<open>wrapper_calls\<close> is that caller, and \<open>rate_limit\<close> decorates first.
\<close>

fun wrapper_calls ::
  "int \<Rightarrow> int \<Rightarrow> ('a, 'w, 'r) callable \<Rightarrow> buckets \<Rightarrow> (time \<times> 'a) list \<Rightarrow> 'w
     \<Rightarrow> (error + 'r) list \<times> 'w \<times> buckets" where
  "wrapper_calls limit window func reqs [] w = ([], w, reqs)"
| "wrapper_calls limit window func reqs ((current_time, args) # calls) w =
     (let out = wrapper limit window func reqs current_time args w
      in case wrapper_calls limit window func (requests out) calls (world out) of
           (rs, w', reqs') \<Rightarrow> (returned out # rs, w', reqs'))"

definition rate_limit ::
  "int \<Rightarrow> int \<Rightarrow> ('a, 'w, 'r) callable \<Rightarrow> (time \<times> 'a) list \<Rightarrow> 'w
     \<Rightarrow> (error + 'r) list \<times> 'w \<times> buckets" where
  "rate_limit limit window func calls w = wrapper_calls limit window func [] calls w"

text \<open>
  A function \<^verbatim>\<open>noop\<close> that does nothing and returns \<^verbatim>\<open>None\<close>, and
  \<^verbatim>\<open>functools.partial(noop)\<close>, which does the same and has no name.
\<close>

definition noop :: "(unit, 'w, unit) callable" where
  "noop = \<lparr>func_name = Some ''noop'', func_call = (\<lambda>args w. ((), w))\<rparr>"

definition partial_noop :: "(unit, 'w, unit) callable" where
  "partial_noop = \<lparr>func_name = None, func_call = (\<lambda>args w. ((), w))\<rparr>"

subsection \<open>Callers of the limiter\<close>

text \<open>
  A caller makes calls of \<^verbatim>\<open>is_allowed\<close> and \<^verbatim>\<open>get_wait_time\<close> on one limiter, one after the
  other, each at its own clock reading; an exception ends the run.
\<close>

datatype call =
  Is_allowed time "int option" "string option"
| Get_wait_time time "int option" "string option"

datatype answer = Allowed bool | Wait int

fun perform :: "RateLimiter \<Rightarrow> call \<Rightarrow> error + (answer \<times> RateLimiter)" where
  "perform self (Is_allowed t user_id ip_address) =
     (case is_allowed self t user_id ip_address of
        Inl e \<Rightarrow> Inl e | Inr (b, self) \<Rightarrow> Inr (Allowed b, self))"
| "perform self (Get_wait_time t user_id ip_address) =
     (case get_wait_time self t user_id ip_address of
        Inl e \<Rightarrow> Inl e | Inr (n, self) \<Rightarrow> Inr (Wait n, self))"

fun perform_all :: "RateLimiter \<Rightarrow> call list \<Rightarrow> error + (answer list \<times> RateLimiter)" where
  "perform_all self [] = Inr ([], self)"
| "perform_all self (c # cs) =
     (case perform self c of
        Inl e \<Rightarrow> Inl e
      | Inr (a, self) \<Rightarrow>
          (case perform_all self cs of
             Inl e \<Rightarrow> Inl e
           | Inr (as, self) \<Rightarrow> Inr (a # as, self)))"

subsection \<open>Notions used to state the properties\<close>

text \<open>The keys of a bucket dictionary, in order.\<close>

definition keys :: "buckets \<Rightarrow> time list" where
  "keys d = map fst d"

text \<open>
  The bucket dictionary stored for a scope key; a key that the limiter has not seen has no
  buckets.
\<close>

definition stored_buckets :: "('k \<rightharpoonup> buckets) \<Rightarrow> 'k \<Rightarrow> buckets" where
  "stored_buckets m k = (case m k of None \<Rightarrow> [] | Some d \<Rightarrow> d)"

text \<open>A clock reading that is a whole number of seconds.\<close>

definition whole_seconds :: "time \<Rightarrow> bool" where
  "whole_seconds t \<longleftrightarrow> of_int \<lfloor>t\<rfloor> = t"

text \<open>
  A dictionary none of whose keys is earlier than \<open>t0\<close>, and a dictionary all of whose counts
  are positive.
\<close>

definition no_key_before :: "time \<Rightarrow> buckets \<Rightarrow> bool" where
  "no_key_before t0 d \<longleftrightarrow> (\<forall>k \<in> set (keys d). t0 \<le> k)"

definition positive_counts :: "buckets \<Rightarrow> bool" where
  "positive_counts d \<longleftrightarrow> (\<forall>c \<in> set (map snd d). 0 < c)"

text \<open>
  The bound of the specification at clock reading \<open>now\<close>: in the global dictionary, and in the
  dictionary of every user and of every IP address the limiter has stored, the counts of the
  buckets that are at most a window older than \<open>now\<close> sum to the limit of the scope at most.
\<close>

definition within_limits :: "RateLimiter \<Rightarrow> time \<Rightarrow> bool" where
  "within_limits s now \<longleftrightarrow>
     sum_values (cleanup_expired_requests (global_requests s) (global_window s) now) \<le> global_limit s \<and>
     (\<forall>u d. user_requests s u = Some d \<longrightarrow>
        sum_values (cleanup_expired_requests d (user_window s) now) \<le> user_limit s) \<and>
     (\<forall>a d. ip_requests s a = Some d \<longrightarrow>
        sum_values (cleanup_expired_requests d (ip_window s) now) \<le> ip_limit s)"

text \<open>
  The invariant that every call keeps, from which the bound follows at every clock reading: no
  limit is negative, every count is positive, and every stored dictionary, entries of any age
  included, sums to the limit of its scope at most.
\<close>

definition scope_inv :: "int \<Rightarrow> buckets \<Rightarrow> bool" where
  "scope_inv limit d \<longleftrightarrow> positive_counts d \<and> sum_values d \<le> limit"

definition limiter_inv :: "RateLimiter \<Rightarrow> bool" where
  "limiter_inv s \<longleftrightarrow>
     0 \<le> global_limit s \<and> 0 \<le> user_limit s \<and> 0 \<le> ip_limit s \<and>
     scope_inv (global_limit s) (global_requests s) \<and>
     (\<forall>u d. user_requests s u = Some d \<longrightarrow> scope_inv (user_limit s) d) \<and>
     (\<forall>a d. ip_requests s a = Some d \<longrightarrow> scope_inv (ip_limit s) d)"

text \<open>
  The wait of one scope as the specification gives it (\<^verbatim>\<open>estimated_wait(scope_key)\<close>): the
  whole window when the swept dictionary of the key sums to the limit or more, zero otherwise.
  The scopes that apply to a query are the global one and the scope of every key the query
  supplies.
\<close>

definition scope_wait :: "int \<Rightarrow> int \<Rightarrow> time \<Rightarrow> buckets \<Rightarrow> int" where
  "scope_wait limit window now d =
     (if limit \<le> sum_values (cleanup_expired_requests d window now) then window else 0)"

definition scope_waits :: "RateLimiter \<Rightarrow> time \<Rightarrow> int option \<Rightarrow> string option \<Rightarrow> int list" where
  "scope_waits s now user_id ip_address =
     scope_wait (global_limit s) (global_window s) now (global_requests s) #
     (case user_id of
        None \<Rightarrow> []
      | Some u \<Rightarrow> [scope_wait (user_limit s) (user_window s) now (stored_buckets (user_requests s) u)]) @
     (case ip_address of
        None \<Rightarrow> []
      | Some a \<Rightarrow> [scope_wait (ip_limit s) (ip_window s) now (stored_buckets (ip_requests s) a)])"

text \<open>
  The waits that \<open>get_wait_time\<close> looks at: the global scope always, the scope of a key only
  when the key is supplied and the limiter has a dictionary stored for it.
\<close>

definition stored_scope_waits ::
  "RateLimiter \<Rightarrow> time \<Rightarrow> int option \<Rightarrow> string option \<Rightarrow> int list" where
  "stored_scope_waits s now user_id ip_address =
     scope_wait (global_limit s) (global_window s) now (global_requests s) #
     (case user_id of
        None \<Rightarrow> []
      | Some u \<Rightarrow>
          (case user_requests s u of
             None \<Rightarrow> []
           | Some d \<Rightarrow> [scope_wait (user_limit s) (user_window s) now d])) @
     (case ip_address of
        None \<Rightarrow> []
      | Some a \<Rightarrow>
          (case ip_requests s a of
             None \<Rightarrow> []
           | Some d \<Rightarrow> [scope_wait (ip_limit s) (ip_window s) now d]))"

section \<open>Properties\<close>

subsection \<open>Dictionaries\<close>

lemma dict_copy_same [simp]: "dict_copy d = d"
  by (simp add: dict_copy_def)

lemma sum_values_setitem:
  "sum_values (dict_setitem d k (dict_get d k 0 + 1)) = sum_values d + 1"
  by (induction d) (auto simp: sum_values_def dict_setitem_def dict_get_def)

lemma keys_setitem: "fst ` set (dict_setitem d k v) = insert k (fst ` set d)"
  by (simp add: dict_setitem_def dom_update)

lemma cleanup_subset:
  "set (cleanup_expired_requests d w t) \<subseteq> set d"
  by (auto simp: cleanup_expired_requests_def)

lemma cleanup_all_fresh:
  "\<forall>(ts, c) \<in> set d. t - ts \<le> of_int w \<Longrightarrow> cleanup_expired_requests d w t = d"
  by (induction d) (auto simp: cleanup_expired_requests_def)

lemma cleanup_entries:
  "set (cleanup_expired_requests d w t) = {(ts, c) \<in> set d. t - ts \<le> of_int w}"
  by (auto simp: cleanup_expired_requests_def)

lemma sum_values_cleanup_le:
  "\<forall>(ts, c) \<in> set d. 0 \<le> c \<Longrightarrow> sum_values (cleanup_expired_requests d w t) \<le> sum_values d"
  by (induction d) (auto simp: cleanup_expired_requests_def sum_values_def)

lemma sum_values_nonneg:
  "\<forall>(ts, c) \<in> set d. 0 \<le> c \<Longrightarrow> 0 \<le> sum_values d"
  by (induction d) (auto simp: sum_values_def)

lemma setitem_entries:
  "(ts, c) \<in> set (dict_setitem d k (dict_get d k 0 + 1)) \<Longrightarrow>
     (ts, c) \<in> set d \<or> (ts = k \<and> c = dict_get d k 0 + 1)"
  by (induction d) (auto simp: dict_setitem_def dict_get_def split: if_splits)

lemma dict_get_pos:
  "\<forall>(ts, c) \<in> set d. 0 < c \<Longrightarrow> 0 \<le> dict_get d k 0"
  by (induction d) (auto simp: dict_get_def split: if_splits)

lemma user_block_Some:
  "user_block s t (Some u) =
     (let stored = (case user_requests s u of None \<Rightarrow> [] | Some b \<Rightarrow> b);
          s0 = s\<lparr>user_requests := (user_requests s)(u \<mapsto> stored)\<rparr>;
          cleaned = cleanup_expired_requests stored (user_window s) t
      in if user_limit s \<le> sum_values cleaned then Inr (False, s0)
         else Inr (True, s\<lparr>user_requests := (user_requests s)(u \<mapsto>
                 dict_setitem cleaned t (dict_get cleaned t 0 + 1))\<rparr>))"
  by (auto simp: user_block_def dict_getitem_def Let_def map_upd_triv split: option.splits)

lemma ip_block_Some:
  "ip_block s t (Some a) =
     (let stored = (case ip_requests s a of None \<Rightarrow> [] | Some b \<Rightarrow> b);
          s0 = s\<lparr>ip_requests := (ip_requests s)(a \<mapsto> stored)\<rparr>;
          cleaned = cleanup_expired_requests stored (ip_window s) t
      in if ip_limit s \<le> sum_values cleaned then Inr (False, s0)
         else Inr (True, s\<lparr>ip_requests := (ip_requests s)(a \<mapsto>
                 dict_setitem cleaned t (dict_get cleaned t 0 + 1))\<rparr>))"
  by (auto simp: ip_block_def dict_getitem_def Let_def map_upd_triv split: option.splits)

lemma user_block_None: "user_block s t None = Inr (True, s)"
  by (simp add: user_block_def)

lemma ip_block_None: "ip_block s t None = Inr (True, s)"
  by (simp add: ip_block_def)

lemma user_block_total: "\<exists>b s'. user_block s t uid = Inr (b, s')"
  by (cases uid) (auto simp: user_block_None user_block_Some Let_def)

lemma ip_block_total: "\<exists>b s'. ip_block s t ip = Inr (b, s')"
  by (cases ip) (auto simp: ip_block_None ip_block_Some Let_def)

lemma is_allowed_total: "\<exists>b s'. is_allowed s t uid ip = Inr (b, s')"
proof -
  obtain g s1 where g: "global_block s t = (g, s1)" by (cases "global_block s t")
  obtain b2 s2 where u: "user_block s1 t uid = Inr (b2, s2)" using user_block_total by blast
  obtain b3 s3 where i: "ip_block s2 t ip = Inr (b3, s3)" using ip_block_total by blast
  show ?thesis
    by (cases g; cases b2; cases b3) (auto simp: is_allowed_def g u i)
qed

lemma user_wait_total: "\<exists>n. user_wait s t uid m = Inr n"
  by (cases uid) (auto simp: user_wait_def dict_getitem_def Let_def)

lemma ip_wait_total: "\<exists>n. ip_wait s t ip m = Inr n"
  by (cases ip) (auto simp: ip_wait_def dict_getitem_def Let_def)

lemma get_wait_time_total: "\<exists>n. get_wait_time s t uid ip = Inr (n, s)"
proof -
  obtain n1 where u: "user_wait s t uid (global_wait s t 0) = Inr n1"
    using user_wait_total by blast
  obtain n2 where i: "ip_wait s t ip n1 = Inr n2" using ip_wait_total by blast
  show ?thesis by (simp add: get_wait_time_def u i)
qed

lemma global_block_eq:
  "global_block s t =
     (let cleaned = cleanup_expired_requests (global_requests s) (global_window s) t
      in if global_limit s \<le> sum_values cleaned then (False, s\<lparr>global_requests := cleaned\<rparr>)
         else (True, s\<lparr>global_requests := dict_setitem cleaned t (dict_get cleaned t 0 + 1)\<rparr>))"
  by (simp add: global_block_def Let_def)

lemma is_allowed_blocks:
  "global_block s t = (g, s1) \<Longrightarrow> user_block s1 t uid = Inr (b2, s2) \<Longrightarrow>
   ip_block s2 t ip = Inr (b3, s3) \<Longrightarrow>
   is_allowed s t uid ip =
     (if \<not> g then Inr (False, s1) else if \<not> b2 then Inr (False, s2) else Inr (b3, s3))"
  by (cases g; cases b2; cases b3) (simp_all add: is_allowed_def)

lemma user_wait_None: "user_wait s t None m = Inr m"
  by (simp add: user_wait_def)

lemma ip_wait_None: "ip_wait s t None m = Inr m"
  by (simp add: ip_wait_def)

subsection \<open>Exceptions and skipped scopes\<close>

text \<open>
  Claim C6.  For every limiter, clock reading, optional user id and optional IP address,
  \<open>is_allowed\<close> and \<open>get_wait_time\<close> return a value: the only operation in them that can raise,
  indexing an outer dictionary, is reached only for a key that is present.  When \<open>user_id\<close> is
  \<^verbatim>\<open>None\<close> the user scope is skipped: the call does not change \<open>user_requests\<close>, and it gives
  the same answer and makes the same changes whatever the user limit, the user window and the
  stored user dictionaries are.  The same holds for \<open>ip_address\<close> and the IP scope.
\<close>

theorem is_allowed_get_wait_time_never_raise:
  "(\<exists>b s'. is_allowed s t uid ip = Inr (b, s')) \<and>
   (\<exists>n s'. get_wait_time s t uid ip = Inr (n, s')) \<and>
   (\<exists>b s'. is_allowed s t None ip = Inr (b, s') \<and> user_requests s' = user_requests s \<and>
      is_allowed (s\<lparr>user_limit := l, user_window := w, user_requests := m\<rparr>) t None ip =
        Inr (b, s'\<lparr>user_limit := l, user_window := w, user_requests := m\<rparr>)) \<and>
   (\<exists>b s'. is_allowed s t uid None = Inr (b, s') \<and> ip_requests s' = ip_requests s \<and>
      is_allowed (s\<lparr>ip_limit := l, ip_window := w, ip_requests := m'\<rparr>) t uid None =
        Inr (b, s'\<lparr>ip_limit := l, ip_window := w, ip_requests := m'\<rparr>)) \<and>
   (\<exists>n. get_wait_time s t None ip = Inr (n, s) \<and>
      get_wait_time (s\<lparr>user_limit := l, user_window := w, user_requests := m\<rparr>) t None ip =
        Inr (n, s\<lparr>user_limit := l, user_window := w, user_requests := m\<rparr>)) \<and>
   (\<exists>n. get_wait_time s t uid None = Inr (n, s) \<and>
      get_wait_time (s\<lparr>ip_limit := l, ip_window := w, ip_requests := m'\<rparr>) t uid None =
        Inr (n, s\<lparr>ip_limit := l, ip_window := w, ip_requests := m'\<rparr>))"
proof (intro conjI)
  show "\<exists>b s'. is_allowed s t uid ip = Inr (b, s')" by (rule is_allowed_total)
  show "\<exists>n s'. get_wait_time s t uid ip = Inr (n, s')" using get_wait_time_total by blast
  show "\<exists>b s'. is_allowed s t None ip = Inr (b, s') \<and> user_requests s' = user_requests s \<and>
      is_allowed (s\<lparr>user_limit := l, user_window := w, user_requests := m\<rparr>) t None ip =
        Inr (b, s'\<lparr>user_limit := l, user_window := w, user_requests := m\<rparr>)"
    by (cases ip)
       (auto simp: is_allowed_def global_block_eq user_block_None ip_block_None ip_block_Some Let_def)
  show "\<exists>b s'. is_allowed s t uid None = Inr (b, s') \<and> ip_requests s' = ip_requests s \<and>
      is_allowed (s\<lparr>ip_limit := l, ip_window := w, ip_requests := m'\<rparr>) t uid None =
        Inr (b, s'\<lparr>ip_limit := l, ip_window := w, ip_requests := m'\<rparr>)"
    by (cases uid)
       (auto simp: is_allowed_def global_block_eq user_block_None ip_block_None user_block_Some Let_def)
  show "\<exists>n. get_wait_time s t None ip = Inr (n, s) \<and>
      get_wait_time (s\<lparr>user_limit := l, user_window := w, user_requests := m\<rparr>) t None ip =
        Inr (n, s\<lparr>user_limit := l, user_window := w, user_requests := m\<rparr>)"
    by (cases ip)
       (auto simp: get_wait_time_def global_wait_def user_wait_None ip_wait_def dict_getitem_def Let_def)
  show "\<exists>n. get_wait_time s t uid None = Inr (n, s) \<and>
      get_wait_time (s\<lparr>ip_limit := l, ip_window := w, ip_requests := m'\<rparr>) t uid None =
        Inr (n, s\<lparr>ip_limit := l, ip_window := w, ip_requests := m'\<rparr>)"
    by (cases uid)
       (auto simp: get_wait_time_def global_wait_def ip_wait_None user_wait_def dict_getitem_def Let_def)
qed

subsection \<open>\<open>get_wait_time\<close> changes nothing\<close>

text \<open>
  Claim C8.  After \<open>get_wait_time\<close> the limiter is the limiter before the call: the global
  dictionary, the dictionary of every user and the dictionary of every IP address are the same.
\<close>

theorem get_wait_time_mutates_no_counter:
  "\<exists>n s'. get_wait_time s t uid ip = Inr (n, s') \<and> s' = s \<and>
     global_requests s' = global_requests s \<and> user_requests s' = user_requests s \<and>
     ip_requests s' = ip_requests s"
  using get_wait_time_total [of s t uid ip] by auto

subsection \<open>The global scope comes first\<close>

lemma is_allowed_global_room:
  assumes "sum_values (cleanup_expired_requests (global_requests s) (global_window s) t) < global_limit s"
  shows "\<exists>b s'. is_allowed s t uid ip = Inr (b, s') \<and>
           global_requests s' =
             dict_setitem (cleanup_expired_requests (global_requests s) (global_window s) t) t
               (dict_get (cleanup_expired_requests (global_requests s) (global_window s) t) t 0 + 1)"
proof -
  let ?c = "cleanup_expired_requests (global_requests s) (global_window s) t"
  let ?s1 = "s\<lparr>global_requests := dict_setitem ?c t (dict_get ?c t 0 + 1)\<rparr>"
  have g: "global_block s t = (True, ?s1)"
    using assms by (simp add: global_block_eq Let_def)
  obtain b2 s2 where u: "user_block ?s1 t uid = Inr (b2, s2)" using user_block_total by blast
  obtain b3 s3 where i: "ip_block s2 t ip = Inr (b3, s3)" using ip_block_total by blast
  have g2: "global_requests s2 = global_requests ?s1"
    using u by (cases uid) (auto simp: user_block_None user_block_Some Let_def split: if_splits)
  have g3: "global_requests s3 = global_requests s2"
    using i by (cases ip) (auto simp: ip_block_None ip_block_Some Let_def split: if_splits)
  show ?thesis
    using is_allowed_blocks [OF g u i] g2 g3 by auto
qed

lemma is_allowed_global_full:
  assumes "global_limit s \<le> sum_values (cleanup_expired_requests (global_requests s) (global_window s) t)"
  shows "is_allowed s t uid ip =
           Inr (False, s\<lparr>global_requests :=
                  cleanup_expired_requests (global_requests s) (global_window s) t\<rparr>)"
  using assms by (simp add: is_allowed_def global_block_eq Let_def)

lemma two_calls_same_user:
  assumes "t2 - t1 \<le> 60"
  shows "\<exists>s1 s2. is_allowed (RateLimiter_init 100 60 1 60 50 60) t1 (Some u) ip = Inr (True, s1) \<and>
           is_allowed s1 t2 (Some u) ip = Inr (False, s2) \<and>
           sum_values (global_requests s2) = 2"
  using assms
  by (cases ip)
     (auto simp: is_allowed_def global_block_eq user_block_Some ip_block_None ip_block_Some
        RateLimiter_init_def Let_def cleanup_expired_requests_def sum_values_def dict_setitem_def
        dict_get_def)

text \<open>
  Claim C2.  \<open>is_allowed\<close> handles the global scope first: whenever the global dictionary, swept
  at the clock reading of the call, sums to less than the global limit, the call leaves the swept
  global dictionary with one more request at that reading, whatever the answer of the call is,
  so also when the user or the IP scope then refuses.  With a global limit of 100 in 60 seconds
  and a user limit of 1 in 60 seconds, on a new limiter, two calls for the same user, the second
  at most 60 seconds after the first: the first is allowed, the second is not, and the global
  dictionary sums to 2.
\<close>

theorem global_quota_consumed_before_narrower_scopes:
  "(sum_values (cleanup_expired_requests (global_requests s) (global_window s) t) < global_limit s \<longrightarrow>
      (\<exists>b s'. is_allowed s t uid ip = Inr (b, s') \<and>
         global_requests s' =
           dict_setitem (cleanup_expired_requests (global_requests s) (global_window s) t) t
             (dict_get (cleanup_expired_requests (global_requests s) (global_window s) t) t 0 + 1) \<and>
         sum_values (global_requests s') =
           sum_values (cleanup_expired_requests (global_requests s) (global_window s) t) + 1)) \<and>
   (t2 - t1 \<le> 60 \<longrightarrow>
      (\<exists>s1 s2. is_allowed (RateLimiter_init 100 60 1 60 50 60) t1 (Some u) ip' = Inr (True, s1) \<and>
         is_allowed s1 t2 (Some u) ip' = Inr (False, s2) \<and>
         sum_values (global_requests s2) = 2))"
proof (intro conjI impI)
  assume "sum_values (cleanup_expired_requests (global_requests s) (global_window s) t) < global_limit s"
  from is_allowed_global_room [OF this, of uid ip]
  show "\<exists>b s'. is_allowed s t uid ip = Inr (b, s') \<and>
         global_requests s' =
           dict_setitem (cleanup_expired_requests (global_requests s) (global_window s) t) t
             (dict_get (cleanup_expired_requests (global_requests s) (global_window s) t) t 0 + 1) \<and>
         sum_values (global_requests s') =
           sum_values (cleanup_expired_requests (global_requests s) (global_window s) t) + 1"
    by (auto simp: sum_values_setitem)
next
  assume "t2 - t1 \<le> 60"
  then show "\<exists>s1 s2. is_allowed (RateLimiter_init 100 60 1 60 50 60) t1 (Some u) ip' = Inr (True, s1) \<and>
         is_allowed s1 t2 (Some u) ip' = Inr (False, s2) \<and>
         sum_values (global_requests s2) = 2"
    by (rule two_calls_same_user)
qed

theorem global_quota_consumed_before_narrower_scopes_witness:
  "(\<exists>b s'. is_allowed (RateLimiter_init 100 60 1 60 50 60) 5 (Some 7) None = Inr (b, s') \<and>
      global_requests s' = [(5, 1)] \<and> sum_values (global_requests s') = 1) \<and>
   (\<exists>s1 s2. is_allowed (RateLimiter_init 100 60 1 60 50 60) 5 (Some 7) None = Inr (True, s1) \<and>
      is_allowed s1 6 (Some 7) None = Inr (False, s2) \<and> sum_values (global_requests s2) = 2)"
  using global_quota_consumed_before_narrower_scopes
          [where s = "RateLimiter_init 100 60 1 60 50 60" and t = 5 and uid = "Some 7" and ip = None
             and ?t1.0 = 5 and ?t2.0 = 6 and u = 7 and ip' = None]
  by (simp add: RateLimiter_init_def cleanup_expired_requests_def sum_values_def dict_setitem_def
        dict_get_def)

subsection \<open>What a refused call leaves behind\<close>

lemma user_block_denied:
  assumes "user_block s1 t (Some u) = Inr (False, s2)"
  shows "s2 = s1\<lparr>user_requests := (user_requests s1)(u \<mapsto> stored_buckets (user_requests s1) u)\<rparr>"
  using assms by (auto simp: user_block_Some Let_def stored_buckets_def split: if_splits)

lemma ip_block_denied:
  assumes "ip_block s2 t (Some a) = Inr (False, s3)"
  shows "s3 = s2\<lparr>ip_requests := (ip_requests s2)(a \<mapsto> stored_buckets (ip_requests s2) a)\<rparr>"
  using assms by (auto simp: ip_block_Some Let_def stored_buckets_def split: if_splits)

lemma global_block_frame:
  "global_block s t = (g, s1) \<Longrightarrow> user_requests s1 = user_requests s \<and> ip_requests s1 = ip_requests s"
  by (auto simp: global_block_eq Let_def split: if_splits)

lemma user_block_frame:
  "user_block s1 t uid = Inr (b, s2) \<Longrightarrow>
     ip_requests s2 = ip_requests s1 \<and> global_requests s2 = global_requests s1"
  by (cases uid) (auto simp: user_block_None user_block_Some Let_def split: if_splits)

lemma ip_block_frame:
  "ip_block s2 t ip = Inr (b, s3) \<Longrightarrow>
     user_requests s3 = user_requests s2 \<and> global_requests s3 = global_requests s2"
  by (cases ip) (auto simp: ip_block_None ip_block_Some Let_def split: if_splits)

text \<open>
  Claim C10.  When \<open>is_allowed\<close> is refused in the user block (the global block let the call
  pass and the user block returned \<^verbatim>\<open>False\<close>), the dictionary stored for that user is the one
  stored before the call, entries older than the window included: the sweep was made on a local
  dictionary that is stored only when the user scope admits.  The only change to
  \<open>user_requests\<close> is that a user seen for the first time now has an empty dictionary.  The same
  holds for a call refused in the IP block and the dictionary of that IP address.  The global
  dictionary, in contrast, is replaced by its swept version in every call: a call that the global
  scope refuses leaves the swept dictionary, any other call the swept dictionary with the request
  added.
\<close>

theorem denial_keeps_key_dictionary_global_sweep_committed:
  "(global_block s t = (True, s1) \<and> user_block s1 t (Some u) = Inr (False, s2) \<longrightarrow>
      is_allowed s t (Some u) ip = Inr (False, s2) \<and>
      ip_requests s2 = ip_requests s \<and>
      stored_buckets (user_requests s2) u = stored_buckets (user_requests s) u \<and>
      (user_requests s u \<noteq> None \<longrightarrow> user_requests s2 = user_requests s) \<and>
      (user_requests s u = None \<longrightarrow> user_requests s2 = (user_requests s)(u \<mapsto> []))) \<and>
   (global_block s t = (True, s1) \<and> user_block s1 t uid = Inr (True, s2) \<and>
    ip_block s2 t (Some a) = Inr (False, s3) \<longrightarrow>
      is_allowed s t uid (Some a) = Inr (False, s3) \<and>
      stored_buckets (ip_requests s3) a = stored_buckets (ip_requests s) a \<and>
      (ip_requests s a \<noteq> None \<longrightarrow> ip_requests s3 = ip_requests s) \<and>
      (ip_requests s a = None \<longrightarrow> ip_requests s3 = (ip_requests s)(a \<mapsto> []))) \<and>
   (\<exists>b s'. is_allowed s t uid ip = Inr (b, s') \<and>
      (global_limit s \<le> sum_values (cleanup_expired_requests (global_requests s) (global_window s) t) \<longrightarrow>
         \<not> b \<and> global_requests s' = cleanup_expired_requests (global_requests s) (global_window s) t) \<and>
      (sum_values (cleanup_expired_requests (global_requests s) (global_window s) t) < global_limit s \<longrightarrow>
         global_requests s' =
           dict_setitem (cleanup_expired_requests (global_requests s) (global_window s) t) t
             (dict_get (cleanup_expired_requests (global_requests s) (global_window s) t) t 0 + 1)))"
proof (intro conjI impI)
  assume h: "global_block s t = (True, s1) \<and> user_block s1 t (Some u) = Inr (False, s2)"
  then have g: "global_block s t = (True, s1)" and d: "user_block s1 t (Some u) = Inr (False, s2)"
    by simp_all
  have s2: "s2 = s1\<lparr>user_requests := (user_requests s1)(u \<mapsto> stored_buckets (user_requests s1) u)\<rparr>"
    by (rule user_block_denied [OF d])
  have f: "user_requests s1 = user_requests s" "ip_requests s1 = ip_requests s"
    using global_block_frame [OF g] by simp_all
  show "is_allowed s t (Some u) ip = Inr (False, s2)"
    by (simp add: is_allowed_def g d)
  show "ip_requests s2 = ip_requests s" by (simp add: s2 f)
  show "stored_buckets (user_requests s2) u = stored_buckets (user_requests s) u"
    by (simp add: s2 f stored_buckets_def)
  show "user_requests s2 = user_requests s" if "user_requests s u \<noteq> None"
    using that by (auto simp: s2 f stored_buckets_def map_upd_triv)
  show "user_requests s2 = (user_requests s)(u \<mapsto> [])" if "user_requests s u = None"
    using that by (simp add: s2 f stored_buckets_def)
next
  assume h: "global_block s t = (True, s1) \<and> user_block s1 t uid = Inr (True, s2) \<and>
    ip_block s2 t (Some a) = Inr (False, s3)"
  then have g: "global_block s t = (True, s1)" and u: "user_block s1 t uid = Inr (True, s2)"
    and d: "ip_block s2 t (Some a) = Inr (False, s3)"
    by simp_all
  have s3: "s3 = s2\<lparr>ip_requests := (ip_requests s2)(a \<mapsto> stored_buckets (ip_requests s2) a)\<rparr>"
    by (rule ip_block_denied [OF d])
  have f: "ip_requests s2 = ip_requests s"
    using global_block_frame [OF g] user_block_frame [OF u] by simp
  show "is_allowed s t uid (Some a) = Inr (False, s3)"
    by (simp add: is_allowed_def g u d)
  show "stored_buckets (ip_requests s3) a = stored_buckets (ip_requests s) a"
    by (simp add: s3 f stored_buckets_def)
  show "ip_requests s3 = ip_requests s" if "ip_requests s a \<noteq> None"
    using that by (auto simp: s3 f stored_buckets_def map_upd_triv)
  show "ip_requests s3 = (ip_requests s)(a \<mapsto> [])" if "ip_requests s a = None"
    using that by (simp add: s3 f stored_buckets_def)
next
  let ?c = "cleanup_expired_requests (global_requests s) (global_window s) t"
  show "\<exists>b s'. is_allowed s t uid ip = Inr (b, s') \<and>
      (global_limit s \<le> sum_values ?c \<longrightarrow> \<not> b \<and> global_requests s' = ?c) \<and>
      (sum_values ?c < global_limit s \<longrightarrow>
         global_requests s' = dict_setitem ?c t (dict_get ?c t 0 + 1))"
  proof (cases "global_limit s \<le> sum_values ?c")
    case True
    then show ?thesis using is_allowed_global_full [OF True, of uid ip] by auto
  next
    case False
    then have "sum_values ?c < global_limit s" by simp
    from is_allowed_global_room [OF this, of uid ip] False show ?thesis by auto
  qed
qed

text \<open>
  The theorem at concrete limiters.  A new limiter with a user limit of 1 in 60 seconds, after
  one allowed call of user 7: the call of the same user one second later is refused in the user
  block and leaves the dictionary of the user as it was.  A limiter whose IP dictionary holds an
  entry older than the window and sums to more than an IP limit of 1: the call is refused in the
  IP block and the old entry stays.  A limiter whose global dictionary holds an entry older than
  the window and sums to more than a global limit of 1: the call is refused by the global scope
  and the old entry is gone.
\<close>

theorem denial_keeps_key_dictionary_global_sweep_committed_witness:
  "is_allowed (RateLimiter_init 100 60 1 60 50 60) 5 (Some 7) None =
     Inr (True, (RateLimiter_init 100 60 1 60 50 60)
                  \<lparr>global_requests := [(5, 1)], user_requests := [7 \<mapsto> [(5, 1)]]\<rparr>) \<and>
   is_allowed ((RateLimiter_init 100 60 1 60 50 60)
                  \<lparr>global_requests := [(5, 1)], user_requests := [7 \<mapsto> [(5, 1)]]\<rparr>)
       6 (Some 7) None =
     Inr (False, (RateLimiter_init 100 60 1 60 50 60)
                  \<lparr>global_requests := [(5, 1), (6, 1)], user_requests := [7 \<mapsto> [(5, 1)]]\<rparr>) \<and>
   is_allowed
     \<lparr>global_limit = 100, global_window = 60, user_limit = 5, user_window = 60,
      ip_limit = 1, ip_window = 60,
      global_requests = [(0, 1), (50, 1)],
      user_requests = [7 \<mapsto> [(0, 1)]], ip_requests = [''10.0.0.1'' \<mapsto> [(0, 1), (50, 1)]]\<rparr>
     100 (Some 7) (Some ''10.0.0.1'') =
   Inr (False,
     \<lparr>global_limit = 100, global_window = 60, user_limit = 5, user_window = 60,
      ip_limit = 1, ip_window = 60,
      global_requests = [(50, 1), (100, 1)],
      user_requests = [7 \<mapsto> [(100, 1)]], ip_requests = [''10.0.0.1'' \<mapsto> [(0, 1), (50, 1)]]\<rparr>) \<and>
   (\<exists>b s'. is_allowed
       \<lparr>global_limit = 1, global_window = 60, user_limit = 5, user_window = 60,
        ip_limit = 5, ip_window = 60,
        global_requests = [(0, 1), (50, 1)],
        user_requests = [7 \<mapsto> [(0, 1)]], ip_requests = Map.empty\<rparr>
       100 (Some 7) None = Inr (b, s') \<and> \<not> b \<and> global_requests s' = [(50, 1)])"
proof (intro conjI)
  show "is_allowed (RateLimiter_init 100 60 1 60 50 60) 5 (Some 7) None =
     Inr (True, (RateLimiter_init 100 60 1 60 50 60)
                  \<lparr>global_requests := [(5, 1)], user_requests := [7 \<mapsto> [(5, 1)]]\<rparr>)"
    by (simp add: is_allowed_def global_block_eq user_block_Some ip_block_None
          RateLimiter_init_def Let_def cleanup_expired_requests_def sum_values_def
          dict_setitem_def dict_get_def)
next
  let ?s = "(RateLimiter_init 100 60 1 60 50 60)
              \<lparr>global_requests := [(5, 1)], user_requests := [7 \<mapsto> [(5, 1)]]\<rparr>"
  let ?s1 = "(RateLimiter_init 100 60 1 60 50 60)
              \<lparr>global_requests := [(5, 1), (6, 1)], user_requests := [7 \<mapsto> [(5, 1)]]\<rparr>"
  have g: "global_block ?s 6 = (True, ?s1)"
    by (simp add: global_block_eq Let_def cleanup_expired_requests_def sum_values_def
          dict_setitem_def dict_get_def RateLimiter_init_def)
  have u: "user_block ?s1 6 (Some 7) = Inr (False, ?s1)"
    by (simp add: user_block_def dict_getitem_def Let_def cleanup_expired_requests_def
          sum_values_def RateLimiter_init_def)
  show "is_allowed ?s 6 (Some 7) None = Inr (False, ?s1)"
    using denial_keeps_key_dictionary_global_sweep_committed
            [where s = ?s and t = 6 and ?s1.0 = ?s1 and u = 7 and ?s2.0 = ?s1 and ip = None] g u
    by simp
next
  let ?s = "\<lparr>global_limit = 100, global_window = 60, user_limit = 5, user_window = 60,
      ip_limit = 1, ip_window = 60,
      global_requests = [(0, 1), (50, 1)],
      user_requests = [7 \<mapsto> [(0, 1)]], ip_requests = [''10.0.0.1'' \<mapsto> [(0, 1), (50, 1)]]\<rparr>"
  let ?s1 = "?s\<lparr>global_requests := [(50, 1), (100, 1)]\<rparr>"
  let ?s2 = "?s1\<lparr>user_requests := [7 \<mapsto> [(100, 1)]]\<rparr>"
  have g: "global_block ?s 100 = (True, ?s1)"
    by (simp add: global_block_eq Let_def cleanup_expired_requests_def sum_values_def
          dict_setitem_def dict_get_def)
  have u: "user_block ?s1 100 (Some 7) = Inr (True, ?s2)"
    by (simp add: user_block_def dict_getitem_def Let_def cleanup_expired_requests_def sum_values_def
          dict_setitem_def dict_get_def)
  have i: "ip_block ?s2 100 (Some ''10.0.0.1'') = Inr (False, ?s2)"
    by (simp add: ip_block_def dict_getitem_def Let_def cleanup_expired_requests_def sum_values_def)
  show "is_allowed ?s 100 (Some 7) (Some ''10.0.0.1'') =
     Inr (False,
     \<lparr>global_limit = 100, global_window = 60, user_limit = 5, user_window = 60,
      ip_limit = 1, ip_window = 60,
      global_requests = [(50, 1), (100, 1)],
      user_requests = [7 \<mapsto> [(100, 1)]], ip_requests = [''10.0.0.1'' \<mapsto> [(0, 1), (50, 1)]]\<rparr>)"
    using denial_keeps_key_dictionary_global_sweep_committed
            [where s = ?s and t = 100 and ?s1.0 = ?s1 and uid = "Some 7" and ?s2.0 = ?s2
               and a = "''10.0.0.1''" and ?s3.0 = ?s2] g u i
    by simp
next
  let ?s = "\<lparr>global_limit = 1, global_window = 60, user_limit = 5, user_window = 60,
      ip_limit = 5, ip_window = 60,
      global_requests = [(0, 1), (50, 1)],
      user_requests = [7 \<mapsto> [(0, 1)]], ip_requests = Map.empty\<rparr>"
  have c: "cleanup_expired_requests (global_requests ?s) (global_window ?s) 100 = [(50, 1)]"
    by (simp add: cleanup_expired_requests_def)
  show "\<exists>b s'. is_allowed ?s 100 (Some 7) None = Inr (b, s') \<and> \<not> b \<and> global_requests s' = [(50, 1)]"
    using denial_keeps_key_dictionary_global_sweep_committed
            [where s = ?s and t = 100 and uid = "Some 7" and ip = None]
    unfolding c
    by (auto simp: sum_values_def)
qed

subsection \<open>Bucket keys\<close>

lemma half_second_floor: "\<lfloor>3400000001 / 2 :: rat\<rfloor> = 1700000000"
  by (simp add: floor_eq_iff)

lemma keys_cleanup: "set (keys (cleanup_expired_requests d w t)) \<subseteq> set (keys d)"
  by (auto simp: keys_def cleanup_expired_requests_def)

lemma keys_setitem_eq: "set (keys (dict_setitem d k v)) = insert k (set (keys d))"
  using keys_setitem [of d k v] by (simp add: keys_def)

lemma keys_admitted:
  "set (keys (dict_setitem (cleanup_expired_requests d w t) t v)) \<subseteq> insert t (set (keys d))"
  using keys_cleanup [of d w t] by (auto simp: keys_setitem_eq)

lemma global_block_keys:
  assumes "global_block s t = (g, s1)"
  shows "set (keys (global_requests s1)) \<subseteq> insert t (set (keys (global_requests s)))"
    and "g \<Longrightarrow> t \<in> set (keys (global_requests s1))"
  using assms keys_cleanup [of "global_requests s" "global_window s" t]
  by (auto simp: global_block_eq Let_def keys_setitem_eq split: if_splits)

lemma user_block_stored:
  assumes "user_block s1 t (Some v) = Inr (b, s2)"
  shows "stored_buckets (user_requests s2) k =
           (if k = v \<and> b
            then dict_setitem (cleanup_expired_requests (stored_buckets (user_requests s1) v) (user_window s1) t) t
                   (dict_get (cleanup_expired_requests (stored_buckets (user_requests s1) v) (user_window s1) t) t 0 + 1)
            else stored_buckets (user_requests s1) k)"
  using assms
  by (auto simp: user_block_Some Let_def stored_buckets_def split: if_splits option.splits)

lemma ip_block_stored:
  assumes "ip_block s2 t (Some v) = Inr (b, s3)"
  shows "stored_buckets (ip_requests s3) k =
           (if k = v \<and> b
            then dict_setitem (cleanup_expired_requests (stored_buckets (ip_requests s2) v) (ip_window s2) t) t
                   (dict_get (cleanup_expired_requests (stored_buckets (ip_requests s2) v) (ip_window s2) t) t 0 + 1)
            else stored_buckets (ip_requests s2) k)"
  using assms
  by (auto simp: ip_block_Some Let_def stored_buckets_def split: if_splits option.splits)

lemma user_block_keys:
  assumes "user_block s1 t uid = Inr (b, s2)"
  shows "set (keys (stored_buckets (user_requests s2) k))
           \<subseteq> insert t (set (keys (stored_buckets (user_requests s1) k)))"
    and "b \<Longrightarrow> uid = Some u \<Longrightarrow> t \<in> set (keys (stored_buckets (user_requests s2) u))"
proof -
  show "set (keys (stored_buckets (user_requests s2) k))
           \<subseteq> insert t (set (keys (stored_buckets (user_requests s1) k)))"
  proof (cases uid)
    case None
    then show ?thesis using assms by (auto simp: user_block_None)
  next
    case (Some v)
    with assms have "user_block s1 t (Some v) = Inr (b, s2)" by simp
    from user_block_stored [OF this, of k] show ?thesis
      using keys_admitted by (auto split: if_splits)
  qed
  show "t \<in> set (keys (stored_buckets (user_requests s2) u))" if "b" "uid = Some u"
    using assms that user_block_stored [of s1 t u b s2 u] by (simp add: keys_setitem_eq)
qed

lemma ip_block_keys:
  assumes "ip_block s2 t ip = Inr (b, s3)"
  shows "set (keys (stored_buckets (ip_requests s3) k))
           \<subseteq> insert t (set (keys (stored_buckets (ip_requests s2) k)))"
    and "b \<Longrightarrow> ip = Some a \<Longrightarrow> t \<in> set (keys (stored_buckets (ip_requests s3) a))"
proof -
  show "set (keys (stored_buckets (ip_requests s3) k))
           \<subseteq> insert t (set (keys (stored_buckets (ip_requests s2) k)))"
  proof (cases ip)
    case None
    then show ?thesis using assms by (auto simp: ip_block_None)
  next
    case (Some v)
    with assms have "ip_block s2 t (Some v) = Inr (b, s3)" by simp
    from ip_block_stored [OF this, of k] show ?thesis
      using keys_admitted by (auto split: if_splits)
  qed
  show "t \<in> set (keys (stored_buckets (ip_requests s3) a))" if "b" "ip = Some a"
    using assms that ip_block_stored [of s2 t a b s3 a] by (simp add: keys_setitem_eq)
qed

lemma wrapper_refused:
  assumes "limit \<le> sum_values (cleanup_expired_requests reqs window t)"
  shows "wrapper limit window func reqs t args w =
           (case func_name func of
              None \<Rightarrow>
                \<lparr>returned = Inl AttributeError, world = w,
                 requests = cleanup_expired_requests reqs window t, warnings = []\<rparr>
            | Some name \<Rightarrow>
                \<lparr>returned = Inl (RuntimeError ''Rate limit exceeded''), world = w,
                 requests = cleanup_expired_requests reqs window t,
                 warnings = [''Function rate limit exceeded: '' @ name]\<rparr>)"
  using assms by (simp add: wrapper_def cleanup_expired_requests_def Let_def split: option.splits)

lemma wrapper_refused_named:
  assumes "limit \<le> sum_values (cleanup_expired_requests reqs window t)" "func_name func = Some name"
  shows "wrapper limit window func reqs t args w =
           \<lparr>returned = Inl (RuntimeError ''Rate limit exceeded''), world = w,
            requests = cleanup_expired_requests reqs window t,
            warnings = [''Function rate limit exceeded: '' @ name]\<rparr>"
  using assms by (simp add: wrapper_refused)

lemma wrapper_refused_effect:
  assumes "limit \<le> sum_values (cleanup_expired_requests reqs window t)"
  shows "returned (wrapper limit window func reqs t args w) =
           Inl (case func_name func of
                  None \<Rightarrow> AttributeError | Some name \<Rightarrow> RuntimeError ''Rate limit exceeded'')"
    and "world (wrapper limit window func reqs t args w) = w"
    and "requests (wrapper limit window func reqs t args w) = cleanup_expired_requests reqs window t"
  using assms by (simp_all add: wrapper_refused split: option.splits)

lemma wrapper_admitted:
  assumes "sum_values (cleanup_expired_requests reqs window t) < limit"
  shows "wrapper limit window func reqs t args w =
           \<lparr>returned = Inr (fst (func_call func args w)), world = snd (func_call func args w),
            requests = dict_setitem (cleanup_expired_requests reqs window t) t
                         (dict_get (cleanup_expired_requests reqs window t) t 0 + 1),
            warnings = []\<rparr>"
  using assms by (simp add: wrapper_def cleanup_expired_requests_def Let_def split: prod.splits)

lemma wrapper_keys:
  "set (keys (requests (wrapper limit window func reqs t args w))) \<subseteq> insert t (set (keys reqs))"
proof (cases "limit \<le> sum_values (cleanup_expired_requests reqs window t)")
  case True
  then show ?thesis using keys_cleanup [of reqs window t] by (auto simp: wrapper_refused_effect)
next
  case False
  then show ?thesis using keys_admitted [of reqs window t] by (simp add: wrapper_admitted)
qed

lemma wrapper_key_recorded:
  "\<not> isl (returned (wrapper limit window func reqs t args w)) \<Longrightarrow>
     t \<in> set (keys (requests (wrapper limit window func reqs t args w)))"
  by (cases "limit \<le> sum_values (cleanup_expired_requests reqs window t)")
     (simp_all add: wrapper_refused_effect wrapper_admitted keys_setitem_eq)

text \<open>
  Claim C9, as the claim states it, fails: a bucket key is the clock reading itself, and
  \<^verbatim>\<open>time.time()\<close> is not a whole number of seconds.  A call of \<open>is_allowed\<close> at half a
  second past 1700000000, on a new limiter, stores that reading as the key in the global, the
  user and the IP dictionary, and so does a call of a decorated function.
\<close>

theorem bucket_key_whole_seconds_counterexample:
  "is_allowed (RateLimiter_init 100 60 10 60 50 60) (3400000001 / 2) (Some 7) (Some ''192.168.1.1'') =
     Inr (True, (RateLimiter_init 100 60 10 60 50 60)\<lparr>
            global_requests := [(3400000001 / 2, 1)],
            user_requests := [7 \<mapsto> [(3400000001 / 2, 1)]],
            ip_requests := [''192.168.1.1'' \<mapsto> [(3400000001 / 2, 1)]]\<rparr>) \<and>
   requests (wrapper 10 60 noop [] (3400000001 / 2) () ()) = [(3400000001 / 2, 1)] \<and>
   \<not> whole_seconds (3400000001 / 2)"
proof (intro conjI)
  show "is_allowed (RateLimiter_init 100 60 10 60 50 60) (3400000001 / 2) (Some 7) (Some ''192.168.1.1'') =
     Inr (True, (RateLimiter_init 100 60 10 60 50 60)\<lparr>
            global_requests := [(3400000001 / 2, 1)],
            user_requests := [7 \<mapsto> [(3400000001 / 2, 1)]],
            ip_requests := [''192.168.1.1'' \<mapsto> [(3400000001 / 2, 1)]]\<rparr>)"
    by (simp add: is_allowed_def global_block_eq user_block_Some ip_block_Some
          RateLimiter_init_def Let_def cleanup_expired_requests_def sum_values_def dict_setitem_def
          dict_get_def)
  show "requests (wrapper 10 60 noop [] (3400000001 / 2) () ()) = [(3400000001 / 2, 1)]"
    by (simp add: wrapper_def noop_def sum_values_def dict_setitem_def dict_get_def)
  show "\<not> whole_seconds (3400000001 / 2)"
    unfolding whole_seconds_def half_second_floor by simp
qed

text \<open>
  Claim C9, amended.  Every bucket key recorded by \<open>is_allowed\<close> or by a decorated function is
  the clock reading of that call, as it was read: the keys of a dictionary after a call are among
  the keys before it and the reading of the call, and a scope that has admitted the call holds
  that reading as a key.  So every distinct reading is its own key; nothing rounds it to whole
  seconds or to a grid.
\<close>

theorem bucket_key_is_clock_reading:
  "(is_allowed s t uid ip = Inr (b, s') \<longrightarrow>
      set (keys (global_requests s')) \<subseteq> insert t (set (keys (global_requests s))) \<and>
      set (keys (stored_buckets (user_requests s') u))
        \<subseteq> insert t (set (keys (stored_buckets (user_requests s) u))) \<and>
      set (keys (stored_buckets (ip_requests s') a))
        \<subseteq> insert t (set (keys (stored_buckets (ip_requests s) a))) \<and>
      (b \<longrightarrow> t \<in> set (keys (global_requests s')) \<and>
             (uid = Some u \<longrightarrow> t \<in> set (keys (stored_buckets (user_requests s') u))) \<and>
             (ip = Some a \<longrightarrow> t \<in> set (keys (stored_buckets (ip_requests s') a))))) \<and>
   set (keys (requests (wrapper limit window func reqs t args w))) \<subseteq> insert t (set (keys reqs)) \<and>
   (\<not> isl (returned (wrapper limit window func reqs t args w)) \<longrightarrow>
      t \<in> set (keys (requests (wrapper limit window func reqs t args w))))"
proof (intro conjI impI)
  assume h: "is_allowed s t uid ip = Inr (b, s')"
  obtain g s1 where g: "global_block s t = (g, s1)" by (cases "global_block s t")
  obtain b2 s2 where u: "user_block s1 t uid = Inr (b2, s2)" using user_block_total by blast
  obtain b3 s3 where i: "ip_block s2 t ip = Inr (b3, s3)" using ip_block_total by blast
  note eq = is_allowed_blocks [OF g u i]
  note gf = global_block_frame [OF g] and uf = user_block_frame [OF u] and ipf = ip_block_frame [OF i]
  note gk = global_block_keys [OF g] and uk = user_block_keys [OF u] and ik = ip_block_keys [OF i]
  have cases: "(\<not> g \<and> \<not> b \<and> s' = s1) \<or> (g \<and> \<not> b2 \<and> \<not> b \<and> s' = s2) \<or> (g \<and> b2 \<and> b = b3 \<and> s' = s3)"
    using h eq by (auto split: if_splits)
  show "set (keys (global_requests s')) \<subseteq> insert t (set (keys (global_requests s)))"
    using cases gk(1) uf ipf by auto
  show "set (keys (stored_buckets (user_requests s') u))
        \<subseteq> insert t (set (keys (stored_buckets (user_requests s) u)))"
    using cases uk(1) [of u] gf ipf by auto
  show "set (keys (stored_buckets (ip_requests s') a))
        \<subseteq> insert t (set (keys (stored_buckets (ip_requests s) a)))"
    using cases ik(1) [of a] gf uf by auto
  assume b: "b"
  with cases have all: "g" "b2" "b3" "s' = s3" by auto
  show "t \<in> set (keys (global_requests s'))"
    using all gk(2) uf ipf by simp
  show "t \<in> set (keys (stored_buckets (user_requests s') u))" if "uid = Some u"
    using all uk(2) [OF _ that] ipf by simp
  show "t \<in> set (keys (stored_buckets (ip_requests s') a))" if "ip = Some a"
    using all ik(2) [OF _ that] by simp
next
  show "set (keys (requests (wrapper limit window func reqs t args w))) \<subseteq> insert t (set (keys reqs))"
    by (rule wrapper_keys)
next
  assume "\<not> isl (returned (wrapper limit window func reqs t args w))"
  then show "t \<in> set (keys (requests (wrapper limit window func reqs t args w)))"
    by (rule wrapper_key_recorded)
qed

theorem bucket_key_is_clock_reading_witness:
  "is_allowed (RateLimiter_init 100 60 10 60 50 60) (3400000001 / 2) (Some 7) (Some ''192.168.1.1'') =
     Inr (True, (RateLimiter_init 100 60 10 60 50 60)\<lparr>
            global_requests := [(3400000001 / 2, 1)],
            user_requests := [7 \<mapsto> [(3400000001 / 2, 1)]],
            ip_requests := [''192.168.1.1'' \<mapsto> [(3400000001 / 2, 1)]]\<rparr>) \<and>
   3400000001 / 2 \<in> set (keys (global_requests ((RateLimiter_init 100 60 10 60 50 60)\<lparr>
            global_requests := [(3400000001 / 2, 1)],
            user_requests := [7 \<mapsto> [(3400000001 / 2, 1)]],
            ip_requests := [''192.168.1.1'' \<mapsto> [(3400000001 / 2, 1)]]\<rparr>))) \<and>
   \<not> isl (returned (wrapper 10 60 noop [] (3400000001 / 2) () ())) \<and>
   3400000001 / 2 \<in> set (keys (requests (wrapper 10 60 noop [] (3400000001 / 2) () ())))"
proof -
  let ?S = "(RateLimiter_init 100 60 10 60 50 60)\<lparr>
            global_requests := [(3400000001 / 2, 1)],
            user_requests := [7 \<mapsto> [(3400000001 / 2, 1)]],
            ip_requests := [''192.168.1.1'' \<mapsto> [(3400000001 / 2, 1)]]\<rparr>"
  have h: "is_allowed (RateLimiter_init 100 60 10 60 50 60) (3400000001 / 2) (Some 7)
             (Some ''192.168.1.1'') = Inr (True, ?S)"
    by (simp add: is_allowed_def global_block_eq user_block_Some ip_block_Some
          RateLimiter_init_def Let_def cleanup_expired_requests_def sum_values_def dict_setitem_def
          dict_get_def)
  have r: "\<not> isl (returned (wrapper 10 60 noop [] (3400000001 / 2) () ()))"
    by (simp add: wrapper_def noop_def sum_values_def)
  from bucket_key_is_clock_reading
         [where s = "RateLimiter_init 100 60 10 60 50 60" and t = "3400000001 / 2"
            and uid = "Some 7" and ip = "Some ''192.168.1.1''" and b = True and s' = ?S
            and u = 7 and a = "''192.168.1.1''" and limit = 10 and window = 60 and func = noop
            and reqs = "[]" and args = "()" and w = "()"] h r
  show ?thesis by blast
qed

subsection \<open>A limit of \<open>N\<close> admits \<open>N\<close> calls in a window\<close>

lemma no_key_before_Nil: "no_key_before t0 []"
  by (simp add: no_key_before_def keys_def)

lemma positive_counts_Nil: "positive_counts []"
  by (simp add: positive_counts_def)

lemma cleanup_within_window:
  assumes "no_key_before t0 d" "t \<le> t0 + of_int w"
  shows "cleanup_expired_requests d w t = d"
proof (rule cleanup_all_fresh)
  show "\<forall>(ts, c)\<in>set d. t - ts \<le> of_int w"
    using assms by (fastforce simp: no_key_before_def keys_def)
qed

lemma no_key_before_setitem:
  "no_key_before t0 d \<Longrightarrow> t0 \<le> t \<Longrightarrow> no_key_before t0 (dict_setitem d t v)"
  by (simp add: no_key_before_def keys_setitem_eq)

lemma positive_counts_cleanup:
  "positive_counts d \<Longrightarrow> positive_counts (cleanup_expired_requests d w t)"
  by (auto simp: positive_counts_def cleanup_expired_requests_def)

lemma positive_counts_setitem:
  assumes "positive_counts d"
  shows "positive_counts (dict_setitem d t (dict_get d t 0 + 1))"
proof -
  have nn: "\<forall>(ts, c) \<in> set d. 0 < c" using assms by (auto simp: positive_counts_def)
  have "0 < c" if "(ts, c) \<in> set (dict_setitem d t (dict_get d t 0 + 1))" for ts c
    using setitem_entries [OF that] dict_get_pos [OF nn, of t] nn by auto
  then show ?thesis by (auto simp: positive_counts_def)
qed

lemma sum_values_cleanup_le_pos:
  "positive_counts d \<Longrightarrow> sum_values (cleanup_expired_requests d w t) \<le> sum_values d"
  by (rule sum_values_cleanup_le) (auto simp: positive_counts_def)

lemma wrapper_calls_within_window:
  assumes "\<forall>t \<in> set ts. t0 \<le> t \<and> t \<le> t0 + of_int window"
    and "no_key_before t0 reqs"
    and "sum_values reqs + int (length ts) \<le> limit"
  shows "\<exists>rs w' reqs'. wrapper_calls limit window func reqs (map (\<lambda>t. (t, args)) ts) w = (rs, w', reqs') \<and>
           length rs = length ts \<and> list_all (\<lambda>r. \<not> isl r) rs \<and>
           no_key_before t0 reqs' \<and> sum_values reqs' = sum_values reqs + int (length ts)"
  using assms
proof (induction ts arbitrary: reqs w)
  case Nil
  then show ?case by simp
next
  case (Cons t ts)
  let ?c = "cleanup_expired_requests reqs window t"
  let ?r = "dict_setitem reqs t (dict_get reqs t 0 + 1)"
  have t: "t0 \<le> t" "t \<le> t0 + of_int window" using Cons.prems(1) by simp_all
  have c: "?c = reqs" using cleanup_within_window [OF Cons.prems(2) t(2)] .
  have room: "sum_values ?c < limit" using Cons.prems(3) c by simp
  note out = wrapper_admitted [OF room, of func args w, unfolded c]
  have "\<forall>t \<in> set ts. t0 \<le> t \<and> t \<le> t0 + of_int window" using Cons.prems(1) by simp
  moreover have "no_key_before t0 ?r" using no_key_before_setitem [OF Cons.prems(2) t(1)] .
  moreover have "sum_values ?r + int (length ts) \<le> limit"
    using Cons.prems(3) by (simp add: sum_values_setitem)
  ultimately obtain rs w' reqs' where
    ih: "wrapper_calls limit window func ?r (map (\<lambda>t. (t, args)) ts) (snd (func_call func args w)) = (rs, w', reqs')"
      "length rs = length ts" "list_all (\<lambda>r. \<not> isl r) rs" "no_key_before t0 reqs'"
      "sum_values reqs' = sum_values ?r + int (length ts)"
    using Cons.IH [of ?r "snd (func_call func args w)"] by blast
  show ?case
    using ih by (simp add: out sum_values_setitem)
qed

lemma global_calls_within_window:
  assumes "\<forall>t \<in> set ts. t0 \<le> t \<and> t \<le> t0 + of_int (global_window s)"
    and "no_key_before t0 (global_requests s)"
    and "sum_values (global_requests s) + int (length ts) \<le> global_limit s"
  shows "\<exists>s'. perform_all s (map (\<lambda>t. Is_allowed t None None) ts) =
                 Inr (replicate (length ts) (Allowed True), s') \<and>
           global_limit s' = global_limit s \<and> global_window s' = global_window s \<and>
           no_key_before t0 (global_requests s') \<and>
           sum_values (global_requests s') = sum_values (global_requests s) + int (length ts)"
  using assms
proof (induction ts arbitrary: s)
  case Nil
  then show ?case by simp
next
  case (Cons t ts)
  let ?d = "global_requests s"
  let ?s1 = "s\<lparr>global_requests := dict_setitem ?d t (dict_get ?d t 0 + 1)\<rparr>"
  have t: "t0 \<le> t" "t \<le> t0 + of_int (global_window s)" using Cons.prems(1) by simp_all
  have c: "cleanup_expired_requests ?d (global_window s) t = ?d"
    using cleanup_within_window [OF Cons.prems(2) t(2)] .
  have step: "is_allowed s t None None = Inr (True, ?s1)"
    using Cons.prems(3) by (simp add: is_allowed_def global_block_eq c user_block_None ip_block_None Let_def)
  have "\<forall>t \<in> set ts. t0 \<le> t \<and> t \<le> t0 + of_int (global_window ?s1)" using Cons.prems(1) by simp
  moreover have "no_key_before t0 (global_requests ?s1)"
    using no_key_before_setitem [OF Cons.prems(2) t(1)] by simp
  moreover have "sum_values (global_requests ?s1) + int (length ts) \<le> global_limit ?s1"
    using Cons.prems(3) by (simp add: sum_values_setitem)
  ultimately obtain s' where
    ih: "perform_all ?s1 (map (\<lambda>t. Is_allowed t None None) ts) =
           Inr (replicate (length ts) (Allowed True), s')"
      "global_limit s' = global_limit ?s1" "global_window s' = global_window ?s1"
      "no_key_before t0 (global_requests s')"
      "sum_values (global_requests s') = sum_values (global_requests ?s1) + int (length ts)"
    using Cons.IH [of ?s1] by blast
  show ?case
    using ih by (simp add: step sum_values_setitem)
qed

lemma stored_buckets_upd: "stored_buckets (m(k \<mapsto> d)) k' = (if k' = k then d else stored_buckets m k')"
  by (simp add: stored_buckets_def)

lemma global_block_room:
  assumes "positive_counts (global_requests s)" "sum_values (global_requests s) < global_limit s"
  shows "\<exists>s1. global_block s t = (True, s1) \<and>
           user_requests s1 = user_requests s \<and> ip_requests s1 = ip_requests s \<and>
           global_limit s1 = global_limit s \<and> global_window s1 = global_window s \<and>
           user_limit s1 = user_limit s \<and> user_window s1 = user_window s \<and>
           ip_limit s1 = ip_limit s \<and> ip_window s1 = ip_window s \<and>
           positive_counts (global_requests s1) \<and>
           sum_values (global_requests s1) \<le> sum_values (global_requests s) + 1"
proof -
  let ?c = "cleanup_expired_requests (global_requests s) (global_window s) t"
  have le: "sum_values ?c \<le> sum_values (global_requests s)"
    using sum_values_cleanup_le_pos [OF assms(1)] .
  have "positive_counts (dict_setitem ?c t (dict_get ?c t 0 + 1))"
    using positive_counts_setitem [OF positive_counts_cleanup [OF assms(1)]] .
  then show ?thesis
    using le assms(2) by (simp add: global_block_eq Let_def sum_values_setitem)
qed

lemma user_calls_within_window:
  assumes "\<forall>t \<in> set ts. t0 \<le> t \<and> t \<le> t0 + of_int (user_window s)"
    and "no_key_before t0 (stored_buckets (user_requests s) u)"
    and "sum_values (stored_buckets (user_requests s) u) + int (length ts) \<le> user_limit s"
    and "positive_counts (global_requests s)"
    and "sum_values (global_requests s) + int (length ts) \<le> global_limit s"
  shows "\<exists>s'. perform_all s (map (\<lambda>t. Is_allowed t (Some u) None) ts) =
                 Inr (replicate (length ts) (Allowed True), s') \<and>
           global_limit s' = global_limit s \<and> global_window s' = global_window s \<and>
           user_limit s' = user_limit s \<and> user_window s' = user_window s \<and>
           positive_counts (global_requests s') \<and>
           sum_values (global_requests s') \<le> sum_values (global_requests s) + int (length ts) \<and>
           no_key_before t0 (stored_buckets (user_requests s') u) \<and>
           sum_values (stored_buckets (user_requests s') u) =
             sum_values (stored_buckets (user_requests s) u) + int (length ts)"
  using assms
proof (induction ts arbitrary: s)
  case Nil
  then show ?case by simp
next
  case (Cons t ts)
  let ?d = "stored_buckets (user_requests s) u"
  have t: "t0 \<le> t" "t \<le> t0 + of_int (user_window s)" using Cons.prems(1) by simp_all
  have "sum_values (global_requests s) < global_limit s" using Cons.prems(5) by simp
  from global_block_room [OF Cons.prems(4) this, of t] obtain s1 where
    g: "global_block s t = (True, s1)" and
    f1: "user_requests s1 = user_requests s" "ip_requests s1 = ip_requests s"
      "global_limit s1 = global_limit s" "global_window s1 = global_window s"
      "user_limit s1 = user_limit s" "user_window s1 = user_window s"
      "positive_counts (global_requests s1)"
      "sum_values (global_requests s1) \<le> sum_values (global_requests s) + 1"
    by blast
  let ?s2 = "s1\<lparr>user_requests := (user_requests s1)(u \<mapsto> dict_setitem ?d t (dict_get ?d t 0 + 1))\<rparr>"
  have c: "cleanup_expired_requests ?d (user_window s) t = ?d"
    using cleanup_within_window [OF Cons.prems(2) t(2)] .
  have ub: "user_block s1 t (Some u) = Inr (True, ?s2)"
    using Cons.prems(3) c f1
    by (simp add: user_block_Some Let_def stored_buckets_def [symmetric])
  have step: "is_allowed s t (Some u) None = Inr (True, ?s2)"
    by (simp add: is_allowed_def g ub ip_block_None)
  have st: "stored_buckets (user_requests ?s2) u = dict_setitem ?d t (dict_get ?d t 0 + 1)"
    by (simp add: stored_buckets_def)
  have "\<forall>t \<in> set ts. t0 \<le> t \<and> t \<le> t0 + of_int (user_window ?s2)"
    using Cons.prems(1) f1 by simp
  moreover have "no_key_before t0 (stored_buckets (user_requests ?s2) u)"
    unfolding st using no_key_before_setitem [OF Cons.prems(2) t(1)] .
  moreover have "sum_values (stored_buckets (user_requests ?s2) u) + int (length ts) \<le> user_limit ?s2"
    unfolding st using Cons.prems(3) f1 by (simp add: sum_values_setitem)
  moreover have "positive_counts (global_requests ?s2)" using f1 by simp
  moreover have "sum_values (global_requests ?s2) + int (length ts) \<le> global_limit ?s2"
    using Cons.prems(5) f1 by simp
  ultimately obtain s' where
    ih: "perform_all ?s2 (map (\<lambda>t. Is_allowed t (Some u) None) ts) =
           Inr (replicate (length ts) (Allowed True), s')"
      "global_limit s' = global_limit ?s2" "global_window s' = global_window ?s2"
      "user_limit s' = user_limit ?s2" "user_window s' = user_window ?s2"
      "positive_counts (global_requests s')"
      "sum_values (global_requests s') \<le> sum_values (global_requests ?s2) + int (length ts)"
      "no_key_before t0 (stored_buckets (user_requests s') u)"
      "sum_values (stored_buckets (user_requests s') u) =
         sum_values (stored_buckets (user_requests ?s2) u) + int (length ts)"
    using Cons.IH [of ?s2] by blast
  show ?case
    using ih f1 by (simp add: step stored_buckets_upd sum_values_setitem)
qed

lemma ip_calls_within_window:
  assumes "\<forall>t \<in> set ts. t0 \<le> t \<and> t \<le> t0 + of_int (ip_window s)"
    and "no_key_before t0 (stored_buckets (ip_requests s) a)"
    and "sum_values (stored_buckets (ip_requests s) a) + int (length ts) \<le> ip_limit s"
    and "positive_counts (global_requests s)"
    and "sum_values (global_requests s) + int (length ts) \<le> global_limit s"
  shows "\<exists>s'. perform_all s (map (\<lambda>t. Is_allowed t None (Some a)) ts) =
                 Inr (replicate (length ts) (Allowed True), s') \<and>
           global_limit s' = global_limit s \<and> global_window s' = global_window s \<and>
           ip_limit s' = ip_limit s \<and> ip_window s' = ip_window s \<and>
           positive_counts (global_requests s') \<and>
           sum_values (global_requests s') \<le> sum_values (global_requests s) + int (length ts) \<and>
           no_key_before t0 (stored_buckets (ip_requests s') a) \<and>
           sum_values (stored_buckets (ip_requests s') a) =
             sum_values (stored_buckets (ip_requests s) a) + int (length ts)"
  using assms
proof (induction ts arbitrary: s)
  case Nil
  then show ?case by simp
next
  case (Cons t ts)
  let ?d = "stored_buckets (ip_requests s) a"
  have t: "t0 \<le> t" "t \<le> t0 + of_int (ip_window s)" using Cons.prems(1) by simp_all
  have "sum_values (global_requests s) < global_limit s" using Cons.prems(5) by simp
  from global_block_room [OF Cons.prems(4) this, of t] obtain s1 where
    g: "global_block s t = (True, s1)" and
    f1: "ip_requests s1 = ip_requests s"
      "global_limit s1 = global_limit s" "global_window s1 = global_window s"
      "ip_limit s1 = ip_limit s" "ip_window s1 = ip_window s"
      "positive_counts (global_requests s1)"
      "sum_values (global_requests s1) \<le> sum_values (global_requests s) + 1"
    by blast
  let ?s2 = "s1\<lparr>ip_requests := (ip_requests s1)(a \<mapsto> dict_setitem ?d t (dict_get ?d t 0 + 1))\<rparr>"
  have c: "cleanup_expired_requests ?d (ip_window s) t = ?d"
    using cleanup_within_window [OF Cons.prems(2) t(2)] .
  have ub: "ip_block s1 t (Some a) = Inr (True, ?s2)"
    using Cons.prems(3) c f1
    by (simp add: ip_block_Some Let_def stored_buckets_def [symmetric])
  have step: "is_allowed s t None (Some a) = Inr (True, ?s2)"
    by (simp add: is_allowed_def g ub user_block_None)
  have st: "stored_buckets (ip_requests ?s2) a = dict_setitem ?d t (dict_get ?d t 0 + 1)"
    by (simp add: stored_buckets_def)
  have "\<forall>t \<in> set ts. t0 \<le> t \<and> t \<le> t0 + of_int (ip_window ?s2)"
    using Cons.prems(1) f1 by simp
  moreover have "no_key_before t0 (stored_buckets (ip_requests ?s2) a)"
    unfolding st using no_key_before_setitem [OF Cons.prems(2) t(1)] .
  moreover have "sum_values (stored_buckets (ip_requests ?s2) a) + int (length ts) \<le> ip_limit ?s2"
    unfolding st using Cons.prems(3) f1 by (simp add: sum_values_setitem)
  moreover have "positive_counts (global_requests ?s2)" using f1 by simp
  moreover have "sum_values (global_requests ?s2) + int (length ts) \<le> global_limit ?s2"
    using Cons.prems(5) f1 by simp
  ultimately obtain s' where
    ih: "perform_all ?s2 (map (\<lambda>t. Is_allowed t None (Some a)) ts) =
           Inr (replicate (length ts) (Allowed True), s')"
      "global_limit s' = global_limit ?s2" "global_window s' = global_window ?s2"
      "ip_limit s' = ip_limit ?s2" "ip_window s' = ip_window ?s2"
      "positive_counts (global_requests s')"
      "sum_values (global_requests s') \<le> sum_values (global_requests ?s2) + int (length ts)"
      "no_key_before t0 (stored_buckets (ip_requests s') a)"
      "sum_values (stored_buckets (ip_requests s') a) =
         sum_values (stored_buckets (ip_requests ?s2) a) + int (length ts)"
    using Cons.IH [of ?s2] by blast
  show ?case
    using ih f1 by (simp add: step stored_buckets_upd sum_values_setitem)
qed

lemma global_call_refused:
  assumes "no_key_before t0 (global_requests s)" "t \<le> t0 + of_int (global_window s)"
    and "global_limit s \<le> sum_values (global_requests s)"
  shows "is_allowed s t None None = Inr (False, s)"
  using assms(3) is_allowed_global_full [of s t None None]
  by (simp add: cleanup_within_window [OF assms(1,2)])

lemma user_call_refused:
  assumes "no_key_before t0 (stored_buckets (user_requests s) u)" "t \<le> t0 + of_int (user_window s)"
    and "user_limit s \<le> sum_values (stored_buckets (user_requests s) u)"
    and "positive_counts (global_requests s)" "sum_values (global_requests s) < global_limit s"
  shows "\<exists>s'. is_allowed s t (Some u) ip = Inr (False, s') \<and>
           stored_buckets (user_requests s') u = stored_buckets (user_requests s) u"
proof -
  from global_block_room [OF assms(4,5), of t] obtain s1 where
    g: "global_block s t = (True, s1)" and
    f1: "user_requests s1 = user_requests s" "user_limit s1 = user_limit s" "user_window s1 = user_window s"
    by blast
  let ?d = "stored_buckets (user_requests s) u"
  let ?s2 = "s1\<lparr>user_requests := (user_requests s1)(u \<mapsto> ?d)\<rparr>"
  have c: "cleanup_expired_requests ?d (user_window s) t = ?d"
    using cleanup_within_window [OF assms(1,2)] .
  have ub: "user_block s1 t (Some u) = Inr (False, ?s2)"
    using assms(3) c f1 by (simp add: user_block_Some Let_def stored_buckets_def [symmetric])
  have "is_allowed s t (Some u) ip = Inr (False, ?s2)"
    by (simp add: is_allowed_def g ub)
  then show ?thesis by (simp add: stored_buckets_upd)
qed

lemma ip_call_refused:
  assumes "no_key_before t0 (stored_buckets (ip_requests s) a)" "t \<le> t0 + of_int (ip_window s)"
    and "ip_limit s \<le> sum_values (stored_buckets (ip_requests s) a)"
    and "positive_counts (global_requests s)" "sum_values (global_requests s) < global_limit s"
  shows "\<exists>s'. is_allowed s t None (Some a) = Inr (False, s') \<and>
           stored_buckets (ip_requests s') a = stored_buckets (ip_requests s) a"
proof -
  from global_block_room [OF assms(4,5), of t] obtain s1 where
    g: "global_block s t = (True, s1)" and
    f1: "ip_requests s1 = ip_requests s" "ip_limit s1 = ip_limit s" "ip_window s1 = ip_window s"
    by blast
  let ?d = "stored_buckets (ip_requests s) a"
  let ?s2 = "s1\<lparr>ip_requests := (ip_requests s1)(a \<mapsto> ?d)\<rparr>"
  have c: "cleanup_expired_requests ?d (ip_window s) t = ?d"
    using cleanup_within_window [OF assms(1,2)] .
  have ub: "ip_block s1 t (Some a) = Inr (False, ?s2)"
    using assms(3) c f1 by (simp add: ip_block_Some Let_def stored_buckets_def [symmetric])
  have "is_allowed s t None (Some a) = Inr (False, ?s2)"
    by (simp add: is_allowed_def g ub user_block_None)
  then show ?thesis by (simp add: stored_buckets_upd)
qed

lemma wrapper_call_refused:
  assumes "no_key_before t0 reqs" "t \<le> t0 + of_int window" "limit \<le> sum_values reqs"
  shows "returned (wrapper limit window func reqs t args w) =
           Inl (case func_name func of
                  None \<Rightarrow> AttributeError | Some name \<Rightarrow> RuntimeError ''Rate limit exceeded'')"
    and "world (wrapper limit window func reqs t args w) = w"
    and "requests (wrapper limit window func reqs t args w) = reqs"
  using assms(3) wrapper_refused_effect [of limit reqs window t func args w]
  by (simp_all add: cleanup_within_window [OF assms(1,2)])

lemma init_fields:
  "global_limit (RateLimiter_init gl gw ul uw il iw) = gl"
  "global_window (RateLimiter_init gl gw ul uw il iw) = gw"
  "user_limit (RateLimiter_init gl gw ul uw il iw) = ul"
  "user_window (RateLimiter_init gl gw ul uw il iw) = uw"
  "ip_limit (RateLimiter_init gl gw ul uw il iw) = il"
  "ip_window (RateLimiter_init gl gw ul uw il iw) = iw"
  "global_requests (RateLimiter_init gl gw ul uw il iw) = []"
  "user_requests (RateLimiter_init gl gw ul uw il iw) = Map.empty"
  "ip_requests (RateLimiter_init gl gw ul uw il iw) = Map.empty"
  by (simp_all add: RateLimiter_init_def)

lemma stored_buckets_empty: "stored_buckets Map.empty k = []"
  by (simp add: stored_buckets_def)

lemma sum_values_Nil: "sum_values [] = 0"
  by (simp add: sum_values_def)

lemma global_scope_limit:
  assumes "\<forall>t \<in> set (t' # ts). t0 \<le> t \<and> t \<le> t0 + of_int window"
  shows "\<exists>s s'. perform_all (RateLimiter_init (int (length ts)) window ul uw il iw)
                   (map (\<lambda>t. Is_allowed t None None) ts) =
                 Inr (replicate (length ts) (Allowed True), s) \<and>
           is_allowed s t' None None = Inr (False, s') \<and>
           global_requests s' = global_requests s \<and>
           sum_values (global_requests s) = int (length ts)"
proof -
  let ?I = "RateLimiter_init (int (length ts)) window ul uw il iw"
  have "\<forall>t \<in> set ts. t0 \<le> t \<and> t \<le> t0 + of_int (global_window ?I)"
    using assms by (simp add: init_fields)
  moreover have "no_key_before t0 (global_requests ?I)"
    by (simp add: init_fields no_key_before_Nil)
  moreover have "sum_values (global_requests ?I) + int (length ts) \<le> global_limit ?I"
    by (simp add: init_fields sum_values_Nil)
  ultimately obtain s where
    run: "perform_all ?I (map (\<lambda>t. Is_allowed t None None) ts) =
            Inr (replicate (length ts) (Allowed True), s)"
    and f: "global_limit s = global_limit ?I" "global_window s = global_window ?I"
      "no_key_before t0 (global_requests s)"
      "sum_values (global_requests s) = sum_values (global_requests ?I) + int (length ts)"
    using global_calls_within_window [of ts t0 ?I] by blast
  have "t' \<le> t0 + of_int (global_window s)" using assms f by (simp add: init_fields)
  moreover have "global_limit s \<le> sum_values (global_requests s)"
    using f by (simp add: init_fields sum_values_Nil)
  ultimately have "is_allowed s t' None None = Inr (False, s)"
    using global_call_refused [OF f(3)] by blast
  then show ?thesis using run f by (auto simp: init_fields sum_values_Nil)
qed

lemma user_scope_limit:
  assumes "\<forall>t \<in> set (t' # ts). t0 \<le> t \<and> t \<le> t0 + of_int window" "int (length ts) < gl"
  shows "\<exists>s s'. perform_all (RateLimiter_init gl gw (int (length ts)) window il iw)
                   (map (\<lambda>t. Is_allowed t (Some u) None) ts) =
                 Inr (replicate (length ts) (Allowed True), s) \<and>
           is_allowed s t' (Some u) None = Inr (False, s') \<and>
           stored_buckets (user_requests s') u = stored_buckets (user_requests s) u \<and>
           sum_values (stored_buckets (user_requests s) u) = int (length ts)"
proof -
  let ?I = "RateLimiter_init gl gw (int (length ts)) window il iw"
  have "\<forall>t \<in> set ts. t0 \<le> t \<and> t \<le> t0 + of_int (user_window ?I)"
    using assms by (simp add: init_fields)
  moreover have "no_key_before t0 (stored_buckets (user_requests ?I) u)"
    by (simp add: init_fields no_key_before_Nil stored_buckets_empty)
  moreover have "sum_values (stored_buckets (user_requests ?I) u) + int (length ts) \<le> user_limit ?I"
    by (simp add: init_fields sum_values_Nil stored_buckets_empty)
  moreover have "positive_counts (global_requests ?I)"
    by (simp add: init_fields positive_counts_Nil)
  moreover have "sum_values (global_requests ?I) + int (length ts) \<le> global_limit ?I"
    using assms(2) by (simp add: init_fields sum_values_Nil)
  ultimately obtain s where
    run: "perform_all ?I (map (\<lambda>t. Is_allowed t (Some u) None) ts) =
            Inr (replicate (length ts) (Allowed True), s)"
    and f: "global_limit s = global_limit ?I" "user_limit s = user_limit ?I"
      "user_window s = user_window ?I" "positive_counts (global_requests s)"
      "sum_values (global_requests s) \<le> sum_values (global_requests ?I) + int (length ts)"
      "no_key_before t0 (stored_buckets (user_requests s) u)"
      "sum_values (stored_buckets (user_requests s) u) =
         sum_values (stored_buckets (user_requests ?I) u) + int (length ts)"
    using user_calls_within_window [of ts t0 ?I u] by blast
  have "t' \<le> t0 + of_int (user_window s)" using assms f by (simp add: init_fields)
  moreover have "user_limit s \<le> sum_values (stored_buckets (user_requests s) u)"
    using f by (simp add: init_fields sum_values_Nil stored_buckets_empty)
  moreover have "sum_values (global_requests s) < global_limit s"
    using f assms(2) by (simp add: init_fields sum_values_Nil)
  ultimately obtain s' where "is_allowed s t' (Some u) None = Inr (False, s')"
    "stored_buckets (user_requests s') u = stored_buckets (user_requests s) u"
    using user_call_refused [OF f(6) _ _ f(4), of t' None] by blast
  then show ?thesis using run f by (auto simp: init_fields sum_values_Nil stored_buckets_empty)
qed

lemma ip_scope_limit:
  assumes "\<forall>t \<in> set (t' # ts). t0 \<le> t \<and> t \<le> t0 + of_int window" "int (length ts) < gl"
  shows "\<exists>s s'. perform_all (RateLimiter_init gl gw ul uw (int (length ts)) window)
                   (map (\<lambda>t. Is_allowed t None (Some a)) ts) =
                 Inr (replicate (length ts) (Allowed True), s) \<and>
           is_allowed s t' None (Some a) = Inr (False, s') \<and>
           stored_buckets (ip_requests s') a = stored_buckets (ip_requests s) a \<and>
           sum_values (stored_buckets (ip_requests s) a) = int (length ts)"
proof -
  let ?I = "RateLimiter_init gl gw ul uw (int (length ts)) window"
  have "\<forall>t \<in> set ts. t0 \<le> t \<and> t \<le> t0 + of_int (ip_window ?I)"
    using assms by (simp add: init_fields)
  moreover have "no_key_before t0 (stored_buckets (ip_requests ?I) a)"
    by (simp add: init_fields no_key_before_Nil stored_buckets_empty)
  moreover have "sum_values (stored_buckets (ip_requests ?I) a) + int (length ts) \<le> ip_limit ?I"
    by (simp add: init_fields sum_values_Nil stored_buckets_empty)
  moreover have "positive_counts (global_requests ?I)"
    by (simp add: init_fields positive_counts_Nil)
  moreover have "sum_values (global_requests ?I) + int (length ts) \<le> global_limit ?I"
    using assms(2) by (simp add: init_fields sum_values_Nil)
  ultimately obtain s where
    run: "perform_all ?I (map (\<lambda>t. Is_allowed t None (Some a)) ts) =
            Inr (replicate (length ts) (Allowed True), s)"
    and f: "global_limit s = global_limit ?I" "ip_limit s = ip_limit ?I"
      "ip_window s = ip_window ?I" "positive_counts (global_requests s)"
      "sum_values (global_requests s) \<le> sum_values (global_requests ?I) + int (length ts)"
      "no_key_before t0 (stored_buckets (ip_requests s) a)"
      "sum_values (stored_buckets (ip_requests s) a) =
         sum_values (stored_buckets (ip_requests ?I) a) + int (length ts)"
    using ip_calls_within_window [of ts t0 ?I a] by blast
  have "t' \<le> t0 + of_int (ip_window s)" using assms f by (simp add: init_fields)
  moreover have "ip_limit s \<le> sum_values (stored_buckets (ip_requests s) a)"
    using f by (simp add: init_fields sum_values_Nil stored_buckets_empty)
  moreover have "sum_values (global_requests s) < global_limit s"
    using f assms(2) by (simp add: init_fields sum_values_Nil)
  ultimately obtain s' where "is_allowed s t' None (Some a) = Inr (False, s')"
    "stored_buckets (ip_requests s') a = stored_buckets (ip_requests s) a"
    using ip_call_refused [OF f(6) _ _ f(4), of t'] by blast
  then show ?thesis using run f by (auto simp: init_fields sum_values_Nil stored_buckets_empty)
qed

lemma throttle_limit:
  assumes "\<forall>t \<in> set (t' # ts). t0 \<le> t \<and> t \<le> t0 + of_int window"
  shows "\<exists>rs w1 reqs. rate_limit (int (length ts)) window func (map (\<lambda>t. (t, args)) ts) w = (rs, w1, reqs) \<and>
           length rs = length ts \<and> list_all (\<lambda>r. \<not> isl r) rs \<and>
           returned (wrapper (int (length ts)) window func reqs t' args w1) =
             Inl (case func_name func of
                    None \<Rightarrow> AttributeError | Some name \<Rightarrow> RuntimeError ''Rate limit exceeded'') \<and>
           world (wrapper (int (length ts)) window func reqs t' args w1) = w1 \<and>
           requests (wrapper (int (length ts)) window func reqs t' args w1) = reqs \<and>
           sum_values reqs = int (length ts)"
proof -
  have "\<forall>t \<in> set ts. t0 \<le> t \<and> t \<le> t0 + of_int window" using assms by simp
  moreover have "no_key_before t0 []" by (rule no_key_before_Nil)
  moreover have "sum_values [] + int (length ts) \<le> int (length ts)" by (simp add: sum_values_Nil)
  ultimately obtain rs w1 reqs where
    run: "wrapper_calls (int (length ts)) window func [] (map (\<lambda>t. (t, args)) ts) w = (rs, w1, reqs)"
    and f: "length rs = length ts" "list_all (\<lambda>r. \<not> isl r) rs" "no_key_before t0 reqs"
      "sum_values reqs = sum_values [] + int (length ts)"
    using wrapper_calls_within_window [of ts t0 window "[]" "int (length ts)" func args w] by blast
  have h1: "t' \<le> t0 + of_int window" using assms by simp
  have h2: "int (length ts) \<le> sum_values reqs" using f by (simp add: sum_values_Nil)
  note r = wrapper_call_refused [OF f(3) h1 h2, of func args w1]
  show ?thesis using run f r by (simp add: rate_limit_def sum_values_Nil)
qed

text \<open>
  Claim C1.  Take \<open>N\<close> clock readings \<open>ts\<close> and one more, \<open>t'\<close>, all between \<open>t0\<close> and \<open>t0\<close>
  plus the window.  On a new limiter whose global limit is \<open>N\<close>, the \<open>N\<close> calls of \<open>is_allowed\<close>
  at \<open>ts\<close> are all allowed, the call at \<open>t'\<close> is refused, and the refused call leaves the global
  dictionary as it was, summing to \<open>N\<close>.  The same holds for the user scope and one user, and for
  the IP scope and one address, when the limit of that scope is \<open>N\<close> and the global limit is more
  than \<open>N\<close>; and for a callable decorated with limit \<open>N\<close>: \<open>N\<close> calls return what the callable
  returns, the next call raises (the rate-limit error when the callable has a name), runs nothing
  and leaves \<^verbatim>\<open>requests\<close> as it was, summing to \<open>N\<close>.
\<close>

theorem every_scope_admits_limit_then_refuses:
  "length ts = N \<and> (\<forall>t \<in> set (t' # ts). t0 \<le> t \<and> t \<le> t0 + of_int window) \<longrightarrow>
     (\<exists>s s'. perform_all (RateLimiter_init (int N) window ul uw il iw)
                (map (\<lambda>t. Is_allowed t None None) ts) = Inr (replicate N (Allowed True), s) \<and>
        is_allowed s t' None None = Inr (False, s') \<and>
        global_requests s' = global_requests s \<and>
        sum_values (global_requests s) = int N) \<and>
     (int N < gl \<longrightarrow>
        (\<exists>s s'. perform_all (RateLimiter_init gl gw (int N) window il iw)
                   (map (\<lambda>t. Is_allowed t (Some u) None) ts) = Inr (replicate N (Allowed True), s) \<and>
           is_allowed s t' (Some u) None = Inr (False, s') \<and>
           stored_buckets (user_requests s') u = stored_buckets (user_requests s) u \<and>
           sum_values (stored_buckets (user_requests s) u) = int N) \<and>
        (\<exists>s s'. perform_all (RateLimiter_init gl gw ul uw (int N) window)
                   (map (\<lambda>t. Is_allowed t None (Some a)) ts) = Inr (replicate N (Allowed True), s) \<and>
           is_allowed s t' None (Some a) = Inr (False, s') \<and>
           stored_buckets (ip_requests s') a = stored_buckets (ip_requests s) a \<and>
           sum_values (stored_buckets (ip_requests s) a) = int N)) \<and>
     (\<exists>rs w1 reqs. rate_limit (int N) window func (map (\<lambda>t. (t, args)) ts) w = (rs, w1, reqs) \<and>
        length rs = N \<and> list_all (\<lambda>r. \<not> isl r) rs \<and>
        returned (wrapper (int N) window func reqs t' args w1) =
          Inl (case func_name func of
                 None \<Rightarrow> AttributeError | Some name \<Rightarrow> RuntimeError ''Rate limit exceeded'') \<and>
        world (wrapper (int N) window func reqs t' args w1) = w1 \<and>
        requests (wrapper (int N) window func reqs t' args w1) = reqs \<and>
        sum_values reqs = int N)"
proof (intro impI, elim conjE)
  assume n: "length ts = N" and w: "\<forall>t \<in> set (t' # ts). t0 \<le> t \<and> t \<le> t0 + of_int window"
  show "(\<exists>s s'. perform_all (RateLimiter_init (int N) window ul uw il iw)
                (map (\<lambda>t. Is_allowed t None None) ts) = Inr (replicate N (Allowed True), s) \<and>
        is_allowed s t' None None = Inr (False, s') \<and>
        global_requests s' = global_requests s \<and>
        sum_values (global_requests s) = int N) \<and>
     (int N < gl \<longrightarrow>
        (\<exists>s s'. perform_all (RateLimiter_init gl gw (int N) window il iw)
                   (map (\<lambda>t. Is_allowed t (Some u) None) ts) = Inr (replicate N (Allowed True), s) \<and>
           is_allowed s t' (Some u) None = Inr (False, s') \<and>
           stored_buckets (user_requests s') u = stored_buckets (user_requests s) u \<and>
           sum_values (stored_buckets (user_requests s) u) = int N) \<and>
        (\<exists>s s'. perform_all (RateLimiter_init gl gw ul uw (int N) window)
                   (map (\<lambda>t. Is_allowed t None (Some a)) ts) = Inr (replicate N (Allowed True), s) \<and>
           is_allowed s t' None (Some a) = Inr (False, s') \<and>
           stored_buckets (ip_requests s') a = stored_buckets (ip_requests s) a \<and>
           sum_values (stored_buckets (ip_requests s) a) = int N)) \<and>
     (\<exists>rs w1 reqs. rate_limit (int N) window func (map (\<lambda>t. (t, args)) ts) w = (rs, w1, reqs) \<and>
        length rs = N \<and> list_all (\<lambda>r. \<not> isl r) rs \<and>
        returned (wrapper (int N) window func reqs t' args w1) =
          Inl (case func_name func of
                 None \<Rightarrow> AttributeError | Some name \<Rightarrow> RuntimeError ''Rate limit exceeded'') \<and>
        world (wrapper (int N) window func reqs t' args w1) = w1 \<and>
        requests (wrapper (int N) window func reqs t' args w1) = reqs \<and>
        sum_values reqs = int N)"
    unfolding n [symmetric]
    using global_scope_limit [OF w, of ul uw il iw]
      user_scope_limit [OF w, of gl gw il iw u] ip_scope_limit [OF w, of gl gw ul uw a]
      throttle_limit [OF w, of func args w]
    by (intro conjI impI) assumption+
qed

theorem every_scope_admits_limit_then_refuses_witness:
  "(\<exists>s s'. perform_all (RateLimiter_init 2 60 10 60 50 60)
              [Is_allowed 3 None None, Is_allowed 5 None None] = Inr ([Allowed True, Allowed True], s) \<and>
      is_allowed s 63 None None = Inr (False, s') \<and>
      global_requests s' = global_requests s \<and> sum_values (global_requests s) = 2) \<and>
   (\<exists>s s'. perform_all (RateLimiter_init 100 60 2 60 50 60)
              [Is_allowed 3 (Some 7) None, Is_allowed 5 (Some 7) None] = Inr ([Allowed True, Allowed True], s) \<and>
      is_allowed s 63 (Some 7) None = Inr (False, s') \<and>
      stored_buckets (user_requests s') 7 = stored_buckets (user_requests s) 7 \<and>
      sum_values (stored_buckets (user_requests s) 7) = 2) \<and>
   (\<exists>s s'. perform_all (RateLimiter_init 100 60 10 60 2 60)
              [Is_allowed 3 None (Some ''10.0.0.1''), Is_allowed 5 None (Some ''10.0.0.1'')] =
              Inr ([Allowed True, Allowed True], s) \<and>
      is_allowed s 63 None (Some ''10.0.0.1'') = Inr (False, s') \<and>
      stored_buckets (ip_requests s') ''10.0.0.1'' = stored_buckets (ip_requests s) ''10.0.0.1'' \<and>
      sum_values (stored_buckets (ip_requests s) ''10.0.0.1'') = 2) \<and>
   (\<exists>rs w1 reqs. rate_limit 2 60 noop [(3, ()), (5, ())] () = (rs, w1, reqs) \<and>
      length rs = 2 \<and> list_all (\<lambda>r. \<not> isl r) rs \<and>
      returned (wrapper 2 60 noop reqs 63 () w1) = Inl (RuntimeError ''Rate limit exceeded'') \<and>
      world (wrapper 2 60 noop reqs 63 () w1) = w1 \<and>
      requests (wrapper 2 60 noop reqs 63 () w1) = reqs \<and> sum_values reqs = 2)"
  using every_scope_admits_limit_then_refuses
          [where ts = "[3, 5]" and N = "Suc (Suc 0)" and t' = 63 and ?t0.0 = 3 and window = 60
             and ul = 10 and uw = 60 and il = 50 and iw = 60 and gl = 100 and gw = 60
             and u = 7 and a = "''10.0.0.1''" and func = noop and args = "()" and w = "()"]
  by (simp add: numeral_2_eq_2 noop_def)

subsection \<open>The decorator\<close>

lemma sum_values_cleanup_less:
  assumes "positive_counts d" "k \<in> set (keys d)" "\<not> t - k \<le> of_int w"
  shows "sum_values (cleanup_expired_requests d w t) < sum_values d"
  using assms
proof (induction d)
  case Nil
  then show ?case by (simp add: keys_def)
next
  case (Cons e d)
  obtain k' c where e: "e = (k', c)" by (cases e)
  have pos: "0 < c" "positive_counts d" using Cons.prems(1) by (auto simp: positive_counts_def e)
  have le: "sum_values (cleanup_expired_requests d w t) \<le> sum_values d"
    using sum_values_cleanup_le_pos [OF pos(2)] .
  show ?case
  proof (cases "t - k' \<le> of_int w")
    case True
    then have "k \<in> set (keys d)" using Cons.prems(2,3) by (auto simp: keys_def e)
    from Cons.IH [OF pos(2) this Cons.prems(3)] True show ?thesis
      by (simp add: e cleanup_expired_requests_def sum_values_def)
  next
    case False
    then show ?thesis using le pos(1)
      by (simp add: e cleanup_expired_requests_def sum_values_def)
  qed
qed

lemma throttle_three_in_ten_seconds:
  assumes "t1 \<le> t2" "t2 \<le> t3" "t3 \<le> t4" "t4 \<le> t1 + 10" "t1 + 11 \<le> t5"
  shows "\<exists>r1 r2 r3 r5 w' reqs'.
           rate_limit 3 10 func [(t1, args), (t2, args), (t3, args), (t4, args), (t5, args)] w =
             ([Inr r1, Inr r2, Inr r3,
               Inl (case func_name func of
                      None \<Rightarrow> AttributeError | Some name \<Rightarrow> RuntimeError ''Rate limit exceeded''),
               Inr r5], w', reqs')"
proof -
  let ?q1 = "dict_setitem [] t1 (dict_get [] t1 0 + 1)"
  let ?q2 = "dict_setitem ?q1 t2 (dict_get ?q1 t2 0 + 1)"
  let ?q3 = "dict_setitem ?q2 t3 (dict_get ?q2 t3 0 + 1)"
  let ?w1 = "snd (func_call func args w)"
  let ?w2 = "snd (func_call func args ?w1)"
  let ?w3 = "snd (func_call func args ?w2)"
  have n1: "no_key_before t1 ?q1" by (simp add: no_key_before_setitem no_key_before_Nil)
  have n2: "no_key_before t1 ?q2" using assms by (simp add: no_key_before_setitem n1)
  have n3: "no_key_before t1 ?q3" using assms by (simp add: no_key_before_setitem n2)
  have p3: "positive_counts ?q3"
    by (intro positive_counts_setitem positive_counts_Nil)
  have k3: "t1 \<in> set (keys ?q3)" by (simp add: keys_setitem_eq)
  have s1: "sum_values ?q1 = 1" by (simp add: sum_values_setitem sum_values_Nil)
  have s2: "sum_values ?q2 = 2" by (simp add: sum_values_setitem sum_values_Nil)
  have s3: "sum_values ?q3 = 3" by (simp add: sum_values_setitem sum_values_Nil)
  have c1: "cleanup_expired_requests [] 10 t1 = []" by (simp add: cleanup_expired_requests_def)
  have c2: "cleanup_expired_requests ?q1 10 t2 = ?q1"
    using assms by (intro cleanup_within_window [OF n1]) simp
  have c3: "cleanup_expired_requests ?q2 10 t3 = ?q2"
    using assms by (intro cleanup_within_window [OF n2]) simp
  have c4: "cleanup_expired_requests ?q3 10 t4 = ?q3"
    using assms by (intro cleanup_within_window [OF n3]) simp
  have o1: "wrapper 3 10 func [] t1 args w =
      \<lparr>returned = Inr (fst (func_call func args w)), world = ?w1, requests = ?q1, warnings = []\<rparr>"
    using wrapper_admitted [of "[]" 10 t1 3 func args w] by (simp add: c1 sum_values_Nil)
  have o2: "wrapper 3 10 func ?q1 t2 args ?w1 =
      \<lparr>returned = Inr (fst (func_call func args ?w1)), world = ?w2, requests = ?q2, warnings = []\<rparr>"
    using wrapper_admitted [of ?q1 10 t2 3 func args ?w1] by (simp add: c2 s1)
  have o3: "wrapper 3 10 func ?q2 t3 args ?w2 =
      \<lparr>returned = Inr (fst (func_call func args ?w2)), world = ?w3, requests = ?q3, warnings = []\<rparr>"
    using wrapper_admitted [of ?q2 10 t3 3 func args ?w2] by (simp add: c3 s2)
  have o4: "returned (wrapper 3 10 func ?q3 t4 args ?w3) =
      Inl (case func_name func of
             None \<Rightarrow> AttributeError | Some name \<Rightarrow> RuntimeError ''Rate limit exceeded'')"
    "world (wrapper 3 10 func ?q3 t4 args ?w3) = ?w3"
    "requests (wrapper 3 10 func ?q3 t4 args ?w3) = ?q3"
    using wrapper_refused_effect [of 3 ?q3 10 t4 func args ?w3] by (simp_all add: c4 s3)
  have "\<not> t5 - t1 \<le> of_int 10" using assms by simp
  from sum_values_cleanup_less [OF p3 k3 this]
  have "sum_values (cleanup_expired_requests ?q3 10 t5) < 3" by (simp add: s3)
  note o5 = wrapper_admitted [OF this, of func args ?w3]
  show ?thesis
    by (simp add: rate_limit_def o1 o2 o3 o4 o5)
qed

text \<open>
  A call of a callable that has a name, decorated with \<open>rate_limit(limit, window)\<close>: when the
  swept \<^verbatim>\<open>requests\<close> sums to the limit or more, the callable is not run (what it acts on is
  unchanged), the call raises the rate-limit error, and \<^verbatim>\<open>requests\<close> is left swept and not
  incremented.  Otherwise, with or without a name, the bucket of the clock reading is
  incremented, the callable runs, and the call returns what the callable returned.  With a limit
  of 3 in 10 seconds, on a newly decorated callable with a name: three calls and a fourth, all
  within 10 seconds of the first, and a fifth call 11 seconds or more after the first; the first
  three return, the fourth raises the rate-limit error, the fifth returns.
\<close>

lemma named_callable_refused:
  assumes "func_name func = Some name"
    and "limit \<le> sum_values (cleanup_expired_requests reqs window t)"
  shows "wrapper limit window func reqs t args w =
           \<lparr>returned = Inl (RuntimeError ''Rate limit exceeded''), world = w,
            requests = cleanup_expired_requests reqs window t,
            warnings = [''Function rate limit exceeded: '' @ name]\<rparr>"
  by (rule wrapper_refused_named [OF assms(2,1)])

lemma callable_run:
  assumes "sum_values (cleanup_expired_requests reqs window t) < limit"
  shows "wrapper limit window func reqs t args w =
           \<lparr>returned = Inr (fst (func_call func args w)), world = snd (func_call func args w),
            requests = dict_setitem (cleanup_expired_requests reqs window t) t
                         (dict_get (cleanup_expired_requests reqs window t) t 0 + 1),
            warnings = []\<rparr>"
    and "sum_values (requests (wrapper limit window func reqs t args w)) =
           sum_values (cleanup_expired_requests reqs window t) + 1"
  by (simp_all add: wrapper_admitted [OF assms] sum_values_setitem)

lemma named_callable_three_in_ten_seconds:
  assumes "func_name func = Some name"
    and "t1 \<le> t2" "t2 \<le> t3" "t3 \<le> t4" "t4 \<le> t1 + 10" "t1 + 11 \<le> t5"
  shows "\<exists>r1 r2 r3 r5 w' reqs'.
           rate_limit 3 10 func [(t1, args), (t2, args), (t3, args), (t4, args), (t5, args)] w =
             ([Inr r1, Inr r2, Inr r3, Inl (RuntimeError ''Rate limit exceeded''), Inr r5], w', reqs')"
  using throttle_three_in_ten_seconds [OF assms(2-6), of func args w] assms(1) by simp

lemma noop_three_in_ten_seconds:
  assumes "t1 \<le> t2" "t2 \<le> t3" "t3 \<le> t4" "t4 \<le> t1 + 10" "t1 + 11 \<le> t5"
  shows "fst (rate_limit 3 10 noop [(t1, ()), (t2, ()), (t3, ()), (t4, ()), (t5, ())] w) =
           [Inr (), Inr (), Inr (), Inl (RuntimeError ''Rate limit exceeded''), Inr ()]"
  using named_callable_three_in_ten_seconds [OF _ assms, of noop "''noop''" "()" w]
  by (auto simp: noop_def)

text \<open>
  Claim C4 holds for every callable that has a name, as shown above, and fails for a callable
  that has none.  On refusal the source builds the text of the warning from
  \<^verbatim>\<open>func.__name__\<close> before it reaches \<^verbatim>\<open>raise RuntimeError("Rate limit exceeded")\<close>, so for
  \<^verbatim>\<open>functools.partial(noop)\<close> the refused call raises \<^verbatim>\<open>AttributeError\<close> and not the
  rate-limit error.  With a limit of 1 in 60 seconds and two calls one second apart: the first
  call returns, the second raises \<^verbatim>\<open>AttributeError\<close>, where the same calls of \<^verbatim>\<open>noop\<close> itself
  raise the rate-limit error.  In both runs the second call runs nothing and \<^verbatim>\<open>requests\<close> keeps
  the one call that was counted.
\<close>

theorem refused_nameless_callable_raises_attribute_error:
  "rate_limit 1 60 partial_noop [(4, ()), (5, ())] () = ([Inr (), Inl AttributeError], (), [(4, 1)]) \<and>
   rate_limit 1 60 noop [(4, ()), (5, ())] () =
     ([Inr (), Inl (RuntimeError ''Rate limit exceeded'')], (), [(4, 1)])"
  by (simp add: rate_limit_def wrapper_def noop_def partial_noop_def sum_values_def dict_setitem_def
        dict_get_def)

text \<open>
  Claim C7, as the claim states it, fails: the exception raised does not say which function was
  throttled.  Two decorated functions with different names, each called twice within the window
  under a limit of 1, raise the same value, \<^verbatim>\<open>RuntimeError("Rate limit exceeded")\<close>.
\<close>

theorem raised_error_names_operation_counterexample:
  "fst (rate_limit 1 60 (noop\<lparr>func_name := Some ''download_track''\<rparr>) [(4, ()), (5, ())] ()) =
     [Inr (), Inl (RuntimeError ''Rate limit exceeded'')] \<and>
   fst (rate_limit 1 60 (noop\<lparr>func_name := Some ''send_message''\<rparr>) [(4, ()), (5, ())] ()) =
     [Inr (), Inl (RuntimeError ''Rate limit exceeded'')] \<and>
   func_name (noop\<lparr>func_name := Some ''download_track''\<rparr> :: (unit, unit, unit) callable) \<noteq>
     func_name (noop\<lparr>func_name := Some ''send_message''\<rparr> :: (unit, unit, unit) callable)"
  by (simp add: rate_limit_def wrapper_def noop_def sum_values_def dict_setitem_def dict_get_def)

text \<open>
  Claim C7, amended.  For decorated callables that have a name: the exception that the call of
  one raises by the decorator is the one raised when its admission fails; it is raised exactly
  then, and it is \<^verbatim>\<open>RuntimeError("Rate limit exceeded")\<close>, the same value for every such
  callable and every argument.  The name of the callable goes into the warning that is logged,
  not into the exception.  \<open>is_allowed\<close> and \<open>get_wait_time\<close> raise nothing.
\<close>

theorem throttle_error_is_fixed_runtime_error:
  "(func_name func = Some name \<and> func_name func' = Some name' \<and>
    limit \<le> sum_values (cleanup_expired_requests reqs window t) \<longrightarrow>
      returned (wrapper limit window func reqs t args w) = Inl (RuntimeError ''Rate limit exceeded'') \<and>
      returned (wrapper limit window func' reqs t args' w) = Inl (RuntimeError ''Rate limit exceeded'') \<and>
      warnings (wrapper limit window func reqs t args w) =
        [''Function rate limit exceeded: '' @ name]) \<and>
   (func_name func = Some name \<and> isl (returned (wrapper limit window func reqs t args w)) \<longrightarrow>
      limit \<le> sum_values (cleanup_expired_requests reqs window t) \<and>
      returned (wrapper limit window func reqs t args w) = Inl (RuntimeError ''Rate limit exceeded'')) \<and>
   (\<exists>b s'. is_allowed s t uid ip = Inr (b, s')) \<and>
   (\<exists>n s'. get_wait_time s t uid ip = Inr (n, s'))"
proof (intro conjI impI)
  assume h: "func_name func = Some name \<and> func_name func' = Some name' \<and>
    limit \<le> sum_values (cleanup_expired_requests reqs window t)"
  then have n: "func_name func = Some name" and n': "func_name func' = Some name'"
    and a: "limit \<le> sum_values (cleanup_expired_requests reqs window t)"
    by simp_all
  show "returned (wrapper limit window func reqs t args w) = Inl (RuntimeError ''Rate limit exceeded'')"
    by (simp add: wrapper_refused_named [OF a n])
  show "returned (wrapper limit window func' reqs t args' w) = Inl (RuntimeError ''Rate limit exceeded'')"
    by (simp add: wrapper_refused_named [OF a n'])
  show "warnings (wrapper limit window func reqs t args w) =
        [''Function rate limit exceeded: '' @ name]"
    by (simp add: wrapper_refused_named [OF a n])
next
  assume h: "func_name func = Some name \<and> isl (returned (wrapper limit window func reqs t args w))"
  then have n: "func_name func = Some name"
    and e: "isl (returned (wrapper limit window func reqs t args w))"
    by simp_all
  show l: "limit \<le> sum_values (cleanup_expired_requests reqs window t)"
  proof (rule ccontr)
    assume "\<not> limit \<le> sum_values (cleanup_expired_requests reqs window t)"
    then have "sum_values (cleanup_expired_requests reqs window t) < limit" by simp
    from wrapper_admitted [OF this, of func args w] e show False by simp
  qed
  show "returned (wrapper limit window func reqs t args w) = Inl (RuntimeError ''Rate limit exceeded'')"
    by (simp add: wrapper_refused_named [OF l n])
next
  show "\<exists>b s'. is_allowed s t uid ip = Inr (b, s')" by (rule is_allowed_total)
  show "\<exists>n s'. get_wait_time s t uid ip = Inr (n, s')" using get_wait_time_total by blast
qed

theorem throttle_error_is_fixed_runtime_error_witness:
  "returned (wrapper 1 60 (noop\<lparr>func_name := Some ''download_track''\<rparr>) [(4, 1)] 5 () ()) =
     Inl (RuntimeError ''Rate limit exceeded'') \<and>
   returned (wrapper 1 60 (noop\<lparr>func_name := Some ''send_message''\<rparr>) [(4, 1)] 5 () ()) =
     Inl (RuntimeError ''Rate limit exceeded'') \<and>
   warnings (wrapper 1 60 (noop\<lparr>func_name := Some ''download_track''\<rparr>) [(4, 1)] 5 () ()) =
     [''Function rate limit exceeded: download_track'']"
proof -
  have p: "func_name (noop\<lparr>func_name := Some ''download_track''\<rparr> :: (unit, unit, unit) callable) =
             Some ''download_track'' \<and>
           func_name (noop\<lparr>func_name := Some ''send_message''\<rparr> :: (unit, unit, unit) callable) =
             Some ''send_message'' \<and>
           (1::int) \<le> sum_values (cleanup_expired_requests [(4, 1)] 60 5)"
    by (simp add: cleanup_expired_requests_def sum_values_def)
  note th = throttle_error_is_fixed_runtime_error
            [where limit = 1 and reqs = "[(4, 1)]" and window = 60 and t = 5
               and func = "noop\<lparr>func_name := Some ''download_track''\<rparr>"
               and func' = "noop\<lparr>func_name := Some ''send_message''\<rparr>"
               and name = "''download_track''" and name' = "''send_message''"
               and args = "()" and args' = "()" and w = "()"
               and s = "RateLimiter_init 100 60 10 60 50 60" and uid = None and ip = None,
             THEN conjunct1, THEN mp, OF p]
  show ?thesis
    using th unfolding append.simps .
qed

subsection \<open>The counted requests stay within the limit\<close>

lemma scope_inv_Nil: "0 \<le> limit \<Longrightarrow> scope_inv limit []"
  by (simp add: scope_inv_def positive_counts_Nil sum_values_Nil)

lemma scope_inv_cleanup: "scope_inv limit d \<Longrightarrow> scope_inv limit (cleanup_expired_requests d w t)"
  using sum_values_cleanup_le_pos [of d w t] positive_counts_cleanup [of d w t]
  by (auto simp: scope_inv_def)

lemma scope_inv_admitted:
  assumes "scope_inv limit d" "sum_values (cleanup_expired_requests d w t) < limit"
  shows "scope_inv limit (dict_setitem (cleanup_expired_requests d w t) t
           (dict_get (cleanup_expired_requests d w t) t 0 + 1))"
  using assms positive_counts_setitem [OF positive_counts_cleanup, of d w t t]
  by (simp add: scope_inv_def sum_values_setitem)

lemma scope_inv_bound:
  "scope_inv limit d \<Longrightarrow> sum_values (cleanup_expired_requests d w now) \<le> limit"
  using scope_inv_cleanup [of limit d w now] by (simp add: scope_inv_def)

lemma limiter_inv_within_limits: "limiter_inv s \<Longrightarrow> within_limits s now"
  by (auto simp: limiter_inv_def within_limits_def intro: scope_inv_bound)

lemma limiter_inv_init:
  "0 \<le> gl \<Longrightarrow> 0 \<le> ul \<Longrightarrow> 0 \<le> il \<Longrightarrow> limiter_inv (RateLimiter_init gl gw ul uw il iw)"
  by (simp add: limiter_inv_def init_fields scope_inv_Nil)

lemma global_block_inv:
  assumes "limiter_inv s" "global_block s t = (g, s1)"
  shows "limiter_inv s1"
proof -
  have gi: "scope_inv (global_limit s) (global_requests s)" using assms(1) by (simp add: limiter_inv_def)
  show ?thesis
  proof (cases "global_limit s \<le> sum_values (cleanup_expired_requests (global_requests s) (global_window s) t)")
    case True
    then have "s1 = s\<lparr>global_requests := cleanup_expired_requests (global_requests s) (global_window s) t\<rparr>"
      using assms(2) by (simp add: global_block_eq Let_def)
    then show ?thesis using assms(1) scope_inv_cleanup [OF gi] by (simp add: limiter_inv_def)
  next
    case False
    then have lt: "sum_values (cleanup_expired_requests (global_requests s) (global_window s) t) < global_limit s"
      by simp
    have "s1 = s\<lparr>global_requests :=
             dict_setitem (cleanup_expired_requests (global_requests s) (global_window s) t) t
               (dict_get (cleanup_expired_requests (global_requests s) (global_window s) t) t 0 + 1)\<rparr>"
      using assms(2) False by (simp add: global_block_eq Let_def)
    then show ?thesis using assms(1) scope_inv_admitted [OF gi lt] by (simp add: limiter_inv_def)
  qed
qed

lemma user_block_inv:
  assumes "limiter_inv s1" "user_block s1 t uid = Inr (b, s2)"
  shows "limiter_inv s2"
proof (cases uid)
  case None
  then show ?thesis using assms by (simp add: user_block_None)
next
  case (Some u)
  let ?d = "stored_buckets (user_requests s1) u"
  let ?c = "cleanup_expired_requests ?d (user_window s1) t"
  have di: "scope_inv (user_limit s1) ?d"
    using assms(1) by (auto simp: limiter_inv_def stored_buckets_def scope_inv_Nil split: option.splits)
  have ub: "user_block s1 t (Some u) = Inr (b, s2)" using assms(2) Some by simp
  show ?thesis
  proof (cases "user_limit s1 \<le> sum_values ?c")
    case True
    then have "s2 = s1\<lparr>user_requests := (user_requests s1)(u \<mapsto> ?d)\<rparr>"
      using ub by (simp add: user_block_Some Let_def stored_buckets_def)
    then show ?thesis using assms(1) di by (simp add: limiter_inv_def)
  next
    case False
    then have lt: "sum_values ?c < user_limit s1" by simp
    have "s2 = s1\<lparr>user_requests := (user_requests s1)(u \<mapsto> dict_setitem ?c t (dict_get ?c t 0 + 1))\<rparr>"
      using ub False by (simp add: user_block_Some Let_def stored_buckets_def)
    then show ?thesis using assms(1) scope_inv_admitted [OF di lt] by (simp add: limiter_inv_def)
  qed
qed

lemma ip_block_inv:
  assumes "limiter_inv s2" "ip_block s2 t ip = Inr (b, s3)"
  shows "limiter_inv s3"
proof (cases ip)
  case None
  then show ?thesis using assms by (simp add: ip_block_None)
next
  case (Some a)
  let ?d = "stored_buckets (ip_requests s2) a"
  let ?c = "cleanup_expired_requests ?d (ip_window s2) t"
  have di: "scope_inv (ip_limit s2) ?d"
    using assms(1) by (auto simp: limiter_inv_def stored_buckets_def scope_inv_Nil split: option.splits)
  have ub: "ip_block s2 t (Some a) = Inr (b, s3)" using assms(2) Some by simp
  show ?thesis
  proof (cases "ip_limit s2 \<le> sum_values ?c")
    case True
    then have "s3 = s2\<lparr>ip_requests := (ip_requests s2)(a \<mapsto> ?d)\<rparr>"
      using ub by (simp add: ip_block_Some Let_def stored_buckets_def)
    then show ?thesis using assms(1) di by (simp add: limiter_inv_def)
  next
    case False
    then have lt: "sum_values ?c < ip_limit s2" by simp
    have "s3 = s2\<lparr>ip_requests := (ip_requests s2)(a \<mapsto> dict_setitem ?c t (dict_get ?c t 0 + 1))\<rparr>"
      using ub False by (simp add: ip_block_Some Let_def stored_buckets_def)
    then show ?thesis using assms(1) scope_inv_admitted [OF di lt] by (simp add: limiter_inv_def)
  qed
qed

lemma is_allowed_inv:
  assumes "limiter_inv s" "is_allowed s t uid ip = Inr (b, s')"
  shows "limiter_inv s'"
proof -
  obtain g s1 where g: "global_block s t = (g, s1)" by (cases "global_block s t")
  obtain b2 s2 where u: "user_block s1 t uid = Inr (b2, s2)" using user_block_total by blast
  obtain b3 s3 where i: "ip_block s2 t ip = Inr (b3, s3)" using ip_block_total by blast
  have i1: "limiter_inv s1" using global_block_inv [OF assms(1) g] .
  have i2: "limiter_inv s2" using user_block_inv [OF i1 u] .
  have i3: "limiter_inv s3" using ip_block_inv [OF i2 i] .
  show ?thesis
    using assms(2) is_allowed_blocks [OF g u i] i1 i2 i3 by (auto split: if_splits)
qed

lemma perform_inv:
  assumes "limiter_inv s" "perform s c = Inr (a, s')"
  shows "limiter_inv s'"
proof (cases c)
  case (Is_allowed t uid ip)
  then show ?thesis using assms is_allowed_inv [of s t uid ip]
    by (auto split: sum.splits)
next
  case (Get_wait_time t uid ip)
  then show ?thesis using assms get_wait_time_total [of s t uid ip]
    by (auto split: sum.splits)
qed

lemma perform_all_inv:
  "limiter_inv s \<Longrightarrow> perform_all s cs = Inr (as, s') \<Longrightarrow> limiter_inv s'"
proof (induction cs arbitrary: s as)
  case Nil
  then show ?case by simp
next
  case (Cons c cs)
  from Cons.prems(2) obtain a s1 as' where
    p: "perform s c = Inr (a, s1)" and r: "perform_all s1 cs = Inr (as', s')"
    by (auto split: sum.splits)
  from Cons.IH [OF perform_inv [OF Cons.prems(1) p] r] show ?case .
qed

lemma perform_total: "\<exists>a s'. perform s c = Inr (a, s')"
proof (cases c)
  case (Is_allowed t uid ip)
  then show ?thesis using is_allowed_total [of s t uid ip] by auto
next
  case (Get_wait_time t uid ip)
  then show ?thesis using get_wait_time_total [of s t uid ip] by auto
qed

text \<open>
  Claim C3, as the claim states it, fails for a limiter created with a negative limit.  With a
  user limit of -1, a call for user 7 is refused and leaves an empty dictionary stored for that
  user; a call without a user is then allowed; and the stored dictionary of user 7 sums to 0,
  which is more than the limit.
\<close>

theorem counted_requests_exceed_negative_limit_counterexample:
  "perform_all (RateLimiter_init 5 60 (-1) 60 50 60)
     [Is_allowed 5 (Some 7) None, Is_allowed 6 None None] =
     Inr ([Allowed False, Allowed True],
          (RateLimiter_init 5 60 (-1) 60 50 60)
            \<lparr>global_requests := [(5, 1), (6, 1)], user_requests := [7 \<mapsto> []]\<rparr>) \<and>
   \<not> within_limits
       ((RateLimiter_init 5 60 (-1) 60 50 60)
          \<lparr>global_requests := [(5, 1), (6, 1)], user_requests := [7 \<mapsto> []]\<rparr>) 6"
proof (intro conjI notI)
  show "perform_all (RateLimiter_init 5 60 (-1) 60 50 60)
     [Is_allowed 5 (Some 7) None, Is_allowed 6 None None] =
     Inr ([Allowed False, Allowed True],
          (RateLimiter_init 5 60 (-1) 60 50 60)
            \<lparr>global_requests := [(5, 1), (6, 1)], user_requests := [7 \<mapsto> []]\<rparr>)"
    by (simp add: is_allowed_def global_block_eq user_block_Some user_block_None ip_block_None
          RateLimiter_init_def Let_def cleanup_expired_requests_def sum_values_def
          dict_setitem_def dict_get_def)
next
  let ?S = "(RateLimiter_init 5 60 (-1) 60 50 60)
              \<lparr>global_requests := [(5, 1), (6, 1)], user_requests := [7 \<mapsto> []]\<rparr>"
  assume "within_limits ?S 6"
  then have "\<forall>u d. user_requests ?S u = Some d \<longrightarrow>
               sum_values (cleanup_expired_requests d (user_window ?S) 6) \<le> user_limit ?S"
    by (simp add: within_limits_def)
  moreover have "user_requests ?S 7 = Some []" by simp
  ultimately have "sum_values (cleanup_expired_requests [] (user_window ?S) 6) \<le> user_limit ?S"
    by blast
  then show False
    by (simp add: cleanup_expired_requests_def sum_values_def RateLimiter_init_def)
qed

text \<open>
  Claim C3, amended.  On a limiter created with limits that are not negative, after any sequence of calls
  of \<open>is_allowed\<close> and \<open>get_wait_time\<close>, at any clock reading: for every user and every IP
  address that has a stored dictionary, the counts of its buckets within the window of that
  reading sum to the limit of the scope at most, and so do those of the global dictionary, which
  counts also the calls that a narrower scope then refused.  The bound follows from an invariant
  that every single call keeps.
\<close>

theorem counted_requests_never_exceed_limit:
  "(0 \<le> gl \<and> 0 \<le> ul \<and> 0 \<le> il \<and>
    perform_all (RateLimiter_init gl gw ul uw il iw) calls = Inr (answers, s) \<longrightarrow>
      within_limits s now \<and> limiter_inv s) \<and>
   (limiter_inv s0 \<longrightarrow>
      (\<exists>a s1. perform s0 c = Inr (a, s1) \<and> limiter_inv s1 \<and> within_limits s1 now))"
proof (intro conjI impI)
  assume h: "0 \<le> gl \<and> 0 \<le> ul \<and> 0 \<le> il \<and>
    perform_all (RateLimiter_init gl gw ul uw il iw) calls = Inr (answers, s)"
  then have "limiter_inv (RateLimiter_init gl gw ul uw il iw)" by (simp add: limiter_inv_init)
  from perform_all_inv [OF this] h show i: "limiter_inv s" by blast
  show "within_limits s now" by (rule limiter_inv_within_limits [OF i])
next
  assume i: "limiter_inv s0"
  obtain a s1 where p: "perform s0 c = Inr (a, s1)" using perform_total by blast
  have "limiter_inv s1" by (rule perform_inv [OF i p])
  then show "\<exists>a s1. perform s0 c = Inr (a, s1) \<and> limiter_inv s1 \<and> within_limits s1 now"
    using p limiter_inv_within_limits by blast
qed

theorem counted_requests_never_exceed_limit_witness:
  "perform_all (RateLimiter_init 100 60 1 60 50 60)
     [Is_allowed 5 (Some 7) None, Is_allowed 6 (Some 7) None, Get_wait_time 6 (Some 7) None] =
     Inr ([Allowed True, Allowed False, Wait 60],
          (RateLimiter_init 100 60 1 60 50 60)
            \<lparr>global_requests := [(5, 1), (6, 1)], user_requests := [7 \<mapsto> [(5, 1)]]\<rparr>) \<and>
   within_limits ((RateLimiter_init 100 60 1 60 50 60)
            \<lparr>global_requests := [(5, 1), (6, 1)], user_requests := [7 \<mapsto> [(5, 1)]]\<rparr>) 6 \<and>
   (\<exists>a s1. perform ((RateLimiter_init 100 60 1 60 50 60)
            \<lparr>global_requests := [(5, 1), (6, 1)], user_requests := [7 \<mapsto> [(5, 1)]]\<rparr>)
            (Is_allowed 7 (Some 8) None) = Inr (a, s1) \<and> limiter_inv s1 \<and> within_limits s1 7)"
proof -
  let ?I = "RateLimiter_init 100 60 1 60 50 60"
  let ?S = "?I\<lparr>global_requests := [(5, 1), (6, 1)], user_requests := [7 \<mapsto> [(5, 1)]]\<rparr>"
  let ?cs = "[Is_allowed 5 (Some 7) None, Is_allowed 6 (Some 7) None, Get_wait_time 6 (Some 7) None]"
  have run: "perform_all ?I ?cs = Inr ([Allowed True, Allowed False, Wait 60], ?S)"
    by (simp add: is_allowed_def global_block_eq user_block_Some ip_block_None
          get_wait_time_def global_wait_def user_wait_def ip_wait_None dict_getitem_def
          RateLimiter_init_def Let_def cleanup_expired_requests_def sum_values_def
          dict_setitem_def dict_get_def)
  have a: "within_limits ?S 6 \<and> limiter_inv ?S"
    using counted_requests_never_exceed_limit
            [where gl = 100 and gw = 60 and ul = 1 and uw = 60 and il = 50 and iw = 60
               and calls = ?cs and answers = "[Allowed True, Allowed False, Wait 60]" and s = ?S
               and now = 6, THEN conjunct1] run
    by simp
  then have i: "limiter_inv ?S" by simp
  have b: "\<exists>a s1. perform ?S (Is_allowed 7 (Some 8) None) = Inr (a, s1) \<and> limiter_inv s1 \<and>
             within_limits s1 7"
    using counted_requests_never_exceed_limit
            [where ?s0.0 = ?S and c = "Is_allowed 7 (Some 8) None" and now = 7, THEN conjunct2] i
    by blast
  show ?thesis using run a b by blast
qed

subsection \<open>The wait time\<close>

lemma scope_wait_Nil: "0 < limit \<Longrightarrow> scope_wait limit window now [] = 0"
  by (simp add: scope_wait_def cleanup_expired_requests_def sum_values_Nil)

lemma global_wait_eq:
  "global_wait s now m =
     (if global_limit s \<le> sum_values (cleanup_expired_requests (global_requests s) (global_window s) now)
      then max m (global_window s) else m)"
  by (simp add: global_wait_def Let_def)

lemma user_wait_Some:
  "user_wait s now (Some u) m =
     Inr (case user_requests s u of
            None \<Rightarrow> m
          | Some d \<Rightarrow> if user_limit s \<le> sum_values (cleanup_expired_requests d (user_window s) now)
                      then max m (user_window s) else m)"
  by (simp add: user_wait_def dict_getitem_def Let_def split: option.splits)

lemma ip_wait_Some:
  "ip_wait s now (Some a) m =
     Inr (case ip_requests s a of
            None \<Rightarrow> m
          | Some d \<Rightarrow> if ip_limit s \<le> sum_values (cleanup_expired_requests d (ip_window s) now)
                      then max m (ip_window s) else m)"
  by (simp add: ip_wait_def dict_getitem_def Let_def split: option.splits)

lemma user_wait_mono: "user_wait s now uid m = Inr n \<Longrightarrow> m \<le> n"
  by (cases uid) (auto simp: user_wait_None user_wait_Some split: option.splits if_splits)

lemma ip_wait_mono: "ip_wait s now ip m = Inr n \<Longrightarrow> m \<le> n"
  by (cases ip) (auto simp: ip_wait_None ip_wait_Some split: option.splits if_splits)

lemma get_wait_time_nonneg:
  assumes "get_wait_time s now uid ip = Inr (n, s')"
  shows "0 \<le> n"
proof -
  obtain n1 where u: "user_wait s now uid (global_wait s now 0) = Inr n1"
    using user_wait_total by blast
  obtain n2 where i: "ip_wait s now ip n1 = Inr n2" using ip_wait_total by blast
  have "0 \<le> global_wait s now 0" by (simp add: global_wait_eq)
  also have "\<dots> \<le> n1" by (rule user_wait_mono [OF u])
  also have "\<dots> \<le> n2" by (rule ip_wait_mono [OF i])
  finally show ?thesis using assms by (simp add: get_wait_time_def u i)
qed

lemma get_wait_time_admitted:
  assumes "is_allowed s now uid ip = Inr (True, s')"
  shows "get_wait_time s now uid ip = Inr (0, s)"
proof -
  let ?c = "cleanup_expired_requests (global_requests s) (global_window s) now"
  obtain g s1 where g: "global_block s now = (g, s1)" by (cases "global_block s now")
  obtain b2 s2 where u: "user_block s1 now uid = Inr (b2, s2)" using user_block_total by blast
  obtain b3 s3 where i: "ip_block s2 now ip = Inr (b3, s3)" using ip_block_total by blast
  have all: "g" "b2" "b3"
    using assms is_allowed_blocks [OF g u i] by (auto split: if_splits)
  have room: "\<not> global_limit s \<le> sum_values ?c"
    using g all(1) by (auto simp: global_block_eq Let_def split: if_splits)
  have f1: "user_requests s1 = user_requests s" "ip_requests s1 = ip_requests s"
    "user_limit s1 = user_limit s" "user_window s1 = user_window s"
    "ip_limit s1 = ip_limit s" "ip_window s1 = ip_window s"
    using g by (auto simp: global_block_eq Let_def split: if_splits)
  have f2: "ip_requests s2 = ip_requests s1" "ip_limit s2 = ip_limit s1" "ip_window s2 = ip_window s1"
    using u by (cases uid; auto simp: user_block_None user_block_Some Let_def split: if_splits)+
  have gw: "global_wait s now 0 = 0" using room by (simp add: global_wait_eq)
  have uw: "user_wait s now uid 0 = Inr 0"
  proof (cases uid)
    case None
    then show ?thesis by (simp add: user_wait_None)
  next
    case (Some v)
    then show ?thesis using u all(2) f1
      by (auto simp: user_wait_Some user_block_Some Let_def split: option.splits if_splits)
  qed
  have iw: "ip_wait s now ip 0 = Inr 0"
  proof (cases ip)
    case None
    then show ?thesis by (simp add: ip_wait_None)
  next
    case (Some v)
    then show ?thesis using i all(3) f1 f2
      by (auto simp: ip_wait_Some ip_block_Some Let_def split: option.splits if_splits)
  qed
  show ?thesis by (simp add: get_wait_time_def gw uw iw)
qed

text \<open>
  When the global window is not negative and every supplied key that has no stored dictionary
  is under a positive limit, the result is the maximum of the waits of the global scope and of
  the scopes of the supplied keys.
\<close>

lemma user_wait_scope_wait:
  assumes "user_requests s u = None \<longrightarrow> 0 < user_limit s" "0 \<le> m"
  shows "user_wait s now (Some u) m =
           Inr (max m (scope_wait (user_limit s) (user_window s) now (stored_buckets (user_requests s) u)))"
  using assms
  by (auto simp: user_wait_Some scope_wait_def stored_buckets_def cleanup_expired_requests_def
        sum_values_Nil split: option.splits)

lemma ip_wait_scope_wait:
  assumes "ip_requests s a = None \<longrightarrow> 0 < ip_limit s" "0 \<le> m"
  shows "ip_wait s now (Some a) m =
           Inr (max m (scope_wait (ip_limit s) (ip_window s) now (stored_buckets (ip_requests s) a)))"
  using assms
  by (auto simp: ip_wait_Some scope_wait_def stored_buckets_def cleanup_expired_requests_def
        sum_values_Nil split: option.splits)

lemma get_wait_time_max:
  assumes "0 \<le> global_window s"
    and "\<forall>u. user_id = Some u \<and> user_requests s u = None \<longrightarrow> 0 < user_limit s"
    and "\<forall>a. ip_address = Some a \<and> ip_requests s a = None \<longrightarrow> 0 < ip_limit s"
  shows "get_wait_time s now user_id ip_address = Inr (Max (set (scope_waits s now user_id ip_address)), s)"
proof -
  let ?g = "scope_wait (global_limit s) (global_window s) now (global_requests s)"
  have g: "global_wait s now 0 = ?g" "0 \<le> ?g"
    using assms(1) by (auto simp: global_wait_eq scope_wait_def)
  show ?thesis
  proof (cases user_id)
    case None
    note un = this
    show ?thesis
    proof (cases ip_address)
      case None
      then show ?thesis using un g
        by (simp add: get_wait_time_def user_wait_None ip_wait_None scope_waits_def)
    next
      case (Some a)
      then have "ip_requests s a = None \<longrightarrow> 0 < ip_limit s" using assms(3) by simp
      from ip_wait_scope_wait [OF this g(2), of now] Some un g show ?thesis
        by (simp add: get_wait_time_def user_wait_None scope_waits_def max.commute)
    qed
  next
    case (Some u)
    note us = this
    let ?u = "scope_wait (user_limit s) (user_window s) now (stored_buckets (user_requests s) u)"
    have "user_requests s u = None \<longrightarrow> 0 < user_limit s" using assms(2) Some by simp
    note uw = user_wait_scope_wait [OF this g(2), of now]
    have m: "0 \<le> max ?g ?u" using g(2) by simp
    show ?thesis
    proof (cases ip_address)
      case None
      then show ?thesis using us g uw
        by (simp add: get_wait_time_def ip_wait_None scope_waits_def max.commute)
    next
      case (Some a)
      then have "ip_requests s a = None \<longrightarrow> 0 < ip_limit s" using assms(3) by simp
      from ip_wait_scope_wait [OF this m, of now] Some us g uw show ?thesis
        by (simp add: get_wait_time_def scope_waits_def max.commute max.left_commute)
    qed
  qed
qed

lemma global_wait_scope_wait:
  "global_wait s now 0 =
     max 0 (scope_wait (global_limit s) (global_window s) now (global_requests s))"
  by (simp add: global_wait_eq scope_wait_def)

lemma user_wait_stored:
  assumes "0 \<le> m"
  shows "user_wait s now user_id m =
           Inr (fold max (case user_id of
                                 None \<Rightarrow> []
                               | Some u \<Rightarrow>
                                   (case user_requests s u of
                                      None \<Rightarrow> []
                                    | Some d \<Rightarrow> [scope_wait (user_limit s) (user_window s) now d])) m)"
  using assms
  by (cases user_id)
     (auto simp: user_wait_None user_wait_Some scope_wait_def split: option.splits)

lemma ip_wait_stored:
  assumes "0 \<le> m"
  shows "ip_wait s now ip_address m =
           Inr (fold max (case ip_address of
                                 None \<Rightarrow> []
                               | Some a \<Rightarrow>
                                   (case ip_requests s a of
                                      None \<Rightarrow> []
                                    | Some d \<Rightarrow> [scope_wait (ip_limit s) (ip_window s) now d])) m)"
  using assms
  by (cases ip_address)
     (auto simp: ip_wait_None ip_wait_Some scope_wait_def split: option.splits)

lemma fold_max_ge: "(m::int) \<le> fold max xs m"
proof (induction xs arbitrary: m)
  case Nil
  then show ?case by simp
next
  case (Cons x xs)
  have "m \<le> max x m" by simp
  also have "\<dots> \<le> fold max xs (max x m)" by (rule Cons.IH)
  finally show ?case by simp
qed

lemma get_wait_time_stored_max:
  "get_wait_time s now user_id ip_address =
     Inr (Max (set (0 # stored_scope_waits s now user_id ip_address)), s)"
proof -
  let ?g = "scope_wait (global_limit s) (global_window s) now (global_requests s)"
  let ?us = "case user_id of
               None \<Rightarrow> []
             | Some u \<Rightarrow>
                 (case user_requests s u of
                    None \<Rightarrow> []
                  | Some d \<Rightarrow> [scope_wait (user_limit s) (user_window s) now d])"
  let ?is = "case ip_address of
               None \<Rightarrow> []
             | Some a \<Rightarrow>
                 (case ip_requests s a of
                    None \<Rightarrow> []
                  | Some d \<Rightarrow> [scope_wait (ip_limit s) (ip_window s) now d])"
  let ?m1 = "max ?g 0"
  let ?m2 = "fold max ?us ?m1"
  have g: "global_wait s now 0 = ?m1" by (simp add: global_wait_scope_wait max.commute)
  have m1: "0 \<le> ?m1" by simp
  have u: "user_wait s now user_id ?m1 = Inr ?m2" by (rule user_wait_stored [OF m1])
  have "?m1 \<le> ?m2" by (rule fold_max_ge)
  with m1 have m2: "0 \<le> ?m2" by linarith
  have i: "ip_wait s now ip_address ?m2 = Inr (fold max ?is ?m2)"
    by (rule ip_wait_stored [OF m2])
  have "get_wait_time s now user_id ip_address = Inr (fold max ?is ?m2, s)"
    by (simp add: get_wait_time_def g u i)
  also have "fold max ?is ?m2 = fold max (?g # ?us @ ?is) 0"
    by simp
  also have "\<dots> = Max (set (0 # ?g # ?us @ ?is))"
    by (rule Max.set_eq_fold [symmetric])
  finally show ?thesis by (simp only: stored_scope_waits_def)
qed

text \<open>
  Claim C5, as the claim states it, fails in two places.  A key the limiter has not stored yet is
  skipped by \<open>get_wait_time\<close>, also when it is at its limit: under a user limit of 0, on a new
  limiter, \<open>is_allowed\<close> refuses user 8 and the wait of the user scope is the window, 60, but
  \<open>get_wait_time\<close> returns 0.  And the result is never below 0: with a global limit of 0 and a
  global window of -5 the only scope that applies is at its limit with a wait of -5, and
  \<open>get_wait_time\<close> returns 0.
\<close>

theorem wait_time_unseen_key_counterexample:
  "get_wait_time (RateLimiter_init 100 60 0 60 50 60) 5 (Some 8) None =
     Inr (0, RateLimiter_init 100 60 0 60 50 60) \<and>
   is_allowed (RateLimiter_init 100 60 0 60 50 60) 5 (Some 8) None =
     Inr (False, (RateLimiter_init 100 60 0 60 50 60)
                   \<lparr>global_requests := [(5, 1)], user_requests := [8 \<mapsto> []]\<rparr>) \<and>
   scope_waits (RateLimiter_init 100 60 0 60 50 60) 5 (Some 8) None = [0, 60] \<and>
   get_wait_time (RateLimiter_init 0 (- 5) 10 60 50 60) 5 None None =
     Inr (0, RateLimiter_init 0 (- 5) 10 60 50 60) \<and>
   scope_waits (RateLimiter_init 0 (- 5) 10 60 50 60) 5 None None = [- 5]"
  by (simp add: get_wait_time_def global_wait_def user_wait_def ip_wait_None dict_getitem_def
        is_allowed_def global_block_eq user_block_Some ip_block_None
        scope_waits_def scope_wait_def stored_buckets_def
        RateLimiter_init_def Let_def cleanup_expired_requests_def sum_values_def
        dict_setitem_def dict_get_def)

text \<open>
  Claim C5, amended.  \<open>get_wait_time\<close> returns a number that is not negative.  It returns 0
  whenever \<open>is_allowed\<close> with the same keys at the same clock reading is allowed.  It returns the
  maximum of 0 and the waits of the scopes that apply, where the global scope always applies,
  the scope of a key applies when the key is supplied and the limiter has a dictionary stored
  for it, and the wait of a scope is its whole window when its key is at or over the limit and 0
  otherwise.
\<close>

theorem wait_time_is_longest_scope_wait:
  "(\<exists>n. get_wait_time s now user_id ip_address = Inr (n, s) \<and> 0 \<le> n) \<and>
   (is_allowed s now user_id ip_address = Inr (True, s') \<longrightarrow>
      get_wait_time s now user_id ip_address = Inr (0, s)) \<and>
   get_wait_time s now user_id ip_address =
     Inr (Max (set (0 # stored_scope_waits s now user_id ip_address)), s)"
proof (intro conjI impI)
  obtain n where n: "get_wait_time s now user_id ip_address = Inr (n, s)"
    using get_wait_time_total by blast
  then show "\<exists>n. get_wait_time s now user_id ip_address = Inr (n, s) \<and> 0 \<le> n"
    using get_wait_time_nonneg by blast
next
  assume "is_allowed s now user_id ip_address = Inr (True, s')"
  then show "get_wait_time s now user_id ip_address = Inr (0, s)"
    by (rule get_wait_time_admitted)
next
  show "get_wait_time s now user_id ip_address =
     Inr (Max (set (0 # stored_scope_waits s now user_id ip_address)), s)"
    by (rule get_wait_time_stored_max)
qed

theorem wait_time_is_longest_scope_wait_witness:
  "get_wait_time (RateLimiter_init 100 60 1 60 50 60) 5 (Some 7) None =
     Inr (0, RateLimiter_init 100 60 1 60 50 60) \<and>
   get_wait_time ((RateLimiter_init 100 60 1 60 50 60)
                    \<lparr>global_requests := [(5, 1), (6, 1)], user_requests := [7 \<mapsto> [(5, 1)]]\<rparr>)
       6 (Some 7) None =
     Inr (60, (RateLimiter_init 100 60 1 60 50 60)
                    \<lparr>global_requests := [(5, 1), (6, 1)], user_requests := [7 \<mapsto> [(5, 1)]]\<rparr>)"
proof (intro conjI)
  let ?I = "RateLimiter_init 100 60 1 60 50 60"
  let ?S1 = "?I\<lparr>global_requests := [(5, 1)], user_requests := [7 \<mapsto> [(5, 1)]]\<rparr>"
  have h: "is_allowed ?I 5 (Some 7) None = Inr (True, ?S1)"
    by (simp add: is_allowed_def global_block_eq user_block_Some ip_block_None
          RateLimiter_init_def Let_def cleanup_expired_requests_def sum_values_def
          dict_setitem_def dict_get_def)
  show "get_wait_time ?I 5 (Some 7) None = Inr (0, ?I)"
    using wait_time_is_longest_scope_wait
            [where s = ?I and now = 5 and user_id = "Some 7" and ip_address = None and s' = ?S1,
             THEN conjunct2, THEN conjunct1] h
    by blast
next
  let ?I = "RateLimiter_init 100 60 1 60 50 60"
  let ?S = "?I\<lparr>global_requests := [(5, 1), (6, 1)], user_requests := [7 \<mapsto> [(5, 1)]]\<rparr>"
  have m: "Max (set (0 # stored_scope_waits ?S 6 (Some 7) None)) = 60"
    by (simp add: stored_scope_waits_def scope_wait_def cleanup_expired_requests_def
          sum_values_def RateLimiter_init_def)
  show "get_wait_time ?S 6 (Some 7) None = Inr (60, ?S)"
    using wait_time_is_longest_scope_wait
            [where s = ?S and now = 6 and user_id = "Some 7" and ip_address = None and s' = ?S,
             THEN conjunct2, THEN conjunct2]
    unfolding m .
qed

end
